theory Spec2Isabelle
  imports Main "HOL-Library.Sublist"
begin

section \<open>The bounded-concurrency queue: \<open>queue\<close>, exported as \<open>asyncQueue\<close>\<close>

text \<open>
  The source (\<^verbatim>\<open>src/build/batcave.esm.js\<close>, lines 10 to 51) keeps three collections in
  the closure of \<^verbatim>\<open>queue(concurrencyLimit)\<close>: the array \<^verbatim>\<open>queue\<close> of pending actions,
  the WeakMap \<^verbatim>\<open>promises\<close> from an action to the \<^verbatim>\<open>{resolve, reject}\<close> pair of the
  promise that \<^verbatim>\<open>push\<close> returned, and the Set \<^verbatim>\<open>running\<close>.

  An action is a JavaScript function object and a WeakMap or Set compares keys by
  reference, so an action is modelled by its identity, a number. A promise made by
  \<^verbatim>\<open>push\<close> is modelled by its identity too: the number of promises made before it.
  The value an action resolves to, or the error it fails with, is opaque to the queue
  and is a number as well.
\<close>

type_synonym action = nat
type_synonym promise = nat

datatype outcome = Fulfilled nat | Rejected nat

text \<open>
  The queue never blocks: everything after \<^verbatim>\<open>push\<close> happens in promise reactions, which
  the engine runs one at a time from its first-in first-out job queue. The jobs this
  code creates are
  \<^item> \<open>RunJob\<close>: \<^verbatim>\<open>Promise.resolve().then(run)\<close> of \<^verbatim>\<open>push\<close> (line 44);
  \<^item> \<open>ActionJob a p\<close>: \<^verbatim>\<open>Promise.resolve().then(action)\<close> of \<^verbatim>\<open>run\<close> (lines 29, 30),
    with the \<^verbatim>\<open>resolve\<close> and \<^verbatim>\<open>reject\<close> that \<^verbatim>\<open>run\<close> read from \<^verbatim>\<open>promises\<close> for it
    (line 27), those of promise \<open>p\<close>;
  \<^item> \<open>SettleJob a p r\<close>: \<^verbatim>\<open>.then(resolve, reject)\<close> (line 31), once the action's
    result has settled with \<open>r\<close>;
  \<^item> \<open>CleanupJob a\<close>: \<^verbatim>\<open>.finally(function cleanup() ...)\<close> (lines 32 to 36).
\<close>

datatype job =
    RunJob
  | ActionJob action promise
  | SettleJob action promise outcome
  | CleanupJob action

text \<open>The one error the queue itself throws (line 26).\<close>

datatype error = MissingCallbacks action

record queue_state =
  concurrencyLimit :: int
  queue :: "action list"
  promises :: "action \<rightharpoonup> promise"
  running :: "action list"
  microtasks :: "job list"
  unsettled :: "(action \<times> promise) list"
  allocated :: nat

text \<open>
  \<open>running\<close> is a JavaScript Set: it keeps insertion order and holds a key once.
  \<open>microtasks\<close> is the engine's job queue, \<open>unsettled\<close> the actions that have been
  called and whose result has not settled yet, each with the promise its chain will
  settle, and \<open>allocated\<close> counts the promises \<^verbatim>\<open>push\<close> has made.
\<close>

definition set_add :: "'a \<Rightarrow> 'a list \<Rightarrow> 'a list" where
  "set_add x xs = (if x \<in> set xs then xs else xs @ [x])"

definition set_delete :: "'a \<Rightarrow> 'a list \<Rightarrow> 'a list" where
  "set_delete x xs = removeAll x xs"

text \<open>\<^verbatim>\<open>queue(concurrencyLimit = 2)\<close>: no argument means the limit 2; no check of the limit.\<close>

definition asyncQueue :: "int \<Rightarrow> queue_state" where
  "asyncQueue k =
     \<lparr>concurrencyLimit = k, queue = [], promises = Map.empty, running = [],
      microtasks = [], unsettled = [], allocated = 0\<rparr>"

definition asyncQueue_default :: queue_state where
  "asyncQueue_default = asyncQueue 2"

text \<open>
  \<^verbatim>\<open>run\<close> (lines 19 to 37): two early returns, then \<^verbatim>\<open>queue.shift()\<close>, the throw when
  the action has no entry in \<^verbatim>\<open>promises\<close> (the action has left the queue by then),
  \<^verbatim>\<open>running.add(action)\<close> and the promise chain, whose first reaction is queued at once.
\<close>

definition run :: "queue_state \<Rightarrow> error option \<times> queue_state" where
  "run s =
     (if concurrencyLimit s \<le> int (length (running s)) then (None, s)
      else case queue s of
        [] \<Rightarrow> (None, s)
      | a # rest \<Rightarrow>
          (case promises s a of
             None \<Rightarrow> (Some (MissingCallbacks a), s\<lparr>queue := rest\<rparr>)
           | Some p \<Rightarrow>
               (None, s\<lparr>queue := rest,
                        running := set_add a (running s),
                        microtasks := microtasks s @ [ActionJob a p]\<rparr>)))"

text \<open>\<^verbatim>\<open>cleanup\<close> (lines 32 to 36), in the closure of the action \<open>a\<close>.\<close>

definition cleanup :: "action \<Rightarrow> queue_state \<Rightarrow> error option \<times> queue_state" where
  "cleanup a s =
     run (s\<lparr>running := set_delete a (running s), promises := (promises s)(a := None)\<rparr>)"

text \<open>\<^verbatim>\<open>push\<close> (lines 39 to 46) returns the new promise.\<close>

definition push :: "action \<Rightarrow> queue_state \<Rightarrow> promise \<times> queue_state" where
  "push a s =
     (let p = allocated s
      in (p, s\<lparr>allocated := Suc p,
               promises := (promises s)(a \<mapsto> p),
               queue := queue s @ [a],
               microtasks := microtasks s @ [RunJob]\<rparr>))"

text \<open>\<^verbatim>\<open>clear: () => void (queue.length = 0)\<close> (line 47).\<close>

definition clear :: "queue_state \<Rightarrow> queue_state" where
  "clear s = s\<lparr>queue := []\<rparr>"

text \<open>\<^verbatim>\<open>running: () => new Set(running)\<close> (line 49): a copy.\<close>

definition running_snapshot :: "queue_state \<Rightarrow> action list" where
  "running_snapshot s = running s"

subsection \<open>Events and what they make visible\<close>

text \<open>
  What happens to a queue: its caller pushes or clears, the engine runs the job at the
  head of its job queue (\<open>Tick\<close>), or the result of an action that has been called
  settles (\<open>Completes a p r\<close>: the action \<open>a\<close> whose chain holds the callbacks of \<open>p\<close>
  returned, threw, or the promise it returned settled, with \<open>r\<close>), which queues the
  reaction of line 31. An event that cannot happen in the state (a tick with no job, the
  completion of a call that is not under way) leaves the state as it is.

  What becomes visible: \<^verbatim>\<open>push\<close> returned a promise, an action was called, the
  \<^verbatim>\<open>resolve\<close> or \<^verbatim>\<open>reject\<close> of a promise was called, or \<^verbatim>\<open>run\<close> threw inside a
  reaction (nothing catches it).
\<close>

datatype event = Push action | Clear | Tick | Completes action promise outcome

datatype effect =
    Pushed action promise
  | Called action
  | Settled promise outcome
  | Thrown error

definition thrown :: "error option \<Rightarrow> effect list" where
  "thrown r = (case r of None \<Rightarrow> [] | Some e \<Rightarrow> [Thrown e])"

fun perform :: "job \<Rightarrow> queue_state \<Rightarrow> effect list \<times> queue_state" where
  "perform RunJob s = (case run s of (r, s') \<Rightarrow> (thrown r, s'))"
| "perform (ActionJob a p) s = ([Called a], s\<lparr>unsettled := unsettled s @ [(a, p)]\<rparr>)"
| "perform (SettleJob a p r) s =
     ([Settled p r], s\<lparr>microtasks := microtasks s @ [CleanupJob a]\<rparr>)"
| "perform (CleanupJob a) s = (case cleanup a s of (r, s') \<Rightarrow> (thrown r, s'))"

fun step :: "event \<Rightarrow> queue_state \<Rightarrow> effect list \<times> queue_state" where
  "step (Push a) s = (case push a s of (p, s') \<Rightarrow> ([Pushed a p], s'))"
| "step Clear s = ([], clear s)"
| "step Tick s =
     (case microtasks s of
        [] \<Rightarrow> ([], s)
      | j # js \<Rightarrow> perform j (s\<lparr>microtasks := js\<rparr>))"
| "step (Completes a p r) s =
     (if (a, p) \<in> set (unsettled s)
      then ([], s\<lparr>unsettled := remove1 (a, p) (unsettled s),
                  microtasks := microtasks s @ [SettleJob a p r]\<rparr>)
      else ([], s))"

fun exec :: "queue_state \<Rightarrow> event list \<Rightarrow> effect list \<times> queue_state" where
  "exec s [] = ([], s)"
| "exec s (e # es) =
     (case step e s of (out, s') \<Rightarrow>
        (case exec s' es of (outs, s'') \<Rightarrow> (out @ outs, s'')))"

definition trace :: "queue_state \<Rightarrow> event list \<Rightarrow> effect list" where
  "trace s es = fst (exec s es)"

definition after :: "queue_state \<Rightarrow> event list \<Rightarrow> queue_state" where
  "after s es = snd (exec s es)"

section \<open>Notions used to state the properties of the queue\<close>

text \<open>The Set \<open>running\<close> holds each action once and no more actions than the limit.\<close>

definition within_limit :: "queue_state \<Rightarrow> bool" where
  "within_limit s \<longleftrightarrow> distinct (running s) \<and> int (length (running s)) \<le> concurrencyLimit s"

text \<open>
  The actions pushed, and the actions called, in the order in which a trace shows them;
  the actions that \<^verbatim>\<open>run\<close> has taken from the queue and whose first reaction has not
  run yet, in the order of the job queue.
\<close>

fun pushed_action :: "effect \<Rightarrow> action option" where
  "pushed_action (Pushed a p) = Some a"
| "pushed_action _ = None"

fun called_action :: "effect \<Rightarrow> action option" where
  "called_action (Called a) = Some a"
| "called_action _ = None"

fun scheduled_action :: "job \<Rightarrow> action option" where
  "scheduled_action (ActionJob a p) = Some a"
| "scheduled_action _ = None"

definition pushes :: "effect list \<Rightarrow> action list" where
  "pushes log = List.map_filter pushed_action log"

definition starts :: "effect list \<Rightarrow> action list" where
  "starts log = List.map_filter called_action log"

definition scheduled :: "queue_state \<Rightarrow> action list" where
  "scheduled s = List.map_filter scheduled_action (microtasks s)"

definition fifo :: "effect list \<Rightarrow> queue_state \<Rightarrow> bool" where
  "fifo log s \<longleftrightarrow> subseq (starts log @ scheduled s @ queue s) (pushes log)"

text \<open>\<open>precedes a b xs\<close>: \<open>b\<close> occurs in \<open>xs\<close> after the first \<open>a\<close>.\<close>

definition precedes :: "'a \<Rightarrow> 'a \<Rightarrow> 'a list \<Rightarrow> bool" where
  "precedes a b xs \<longleftrightarrow> b \<in> set (drop 1 (dropWhile (\<lambda>x. x \<noteq> a) xs))"

text \<open>
  A promise is live when the queue can still settle it: a reaction in the job queue or
  the chain of a call under way holds its callbacks, or a pending action is bound to
  it in \<^verbatim>\<open>promises\<close>.
\<close>

fun job_promise :: "job \<Rightarrow> promise option" where
  "job_promise (ActionJob a p) = Some p"
| "job_promise (SettleJob a p r) = Some p"
| "job_promise _ = None"

definition live :: "promise \<Rightarrow> queue_state \<Rightarrow> bool" where
  "live p s \<longleftrightarrow>
     Some p \<in> job_promise ` set (microtasks s) \<or>
     p \<in> snd ` set (unsettled s) \<or>
     (\<exists>a \<in> set (queue s). promises s a = Some p)"

text \<open>An action can be called without a new push when it is pending or already scheduled.\<close>

definition may_start :: "action \<Rightarrow> queue_state \<Rightarrow> bool" where
  "may_start a s \<longleftrightarrow> a \<in> set (queue s) \<or> a \<in> set (scheduled s)"

text \<open>Nothing runs and nothing is under way: the only jobs are the \<open>RunJob\<close>s of pushes.\<close>

definition idle :: "queue_state \<Rightarrow> bool" where
  "idle s \<longleftrightarrow> running s = [] \<and> unsettled s = [] \<and> set (microtasks s) \<subseteq> {RunJob}"

text \<open>
  The actions the queue is still dealing with besides the pending ones: those that a
  job in the job queue is about (to call, to settle, to clean up after), and those
  whose call is under way. With each \<open>ActionJob\<close>, \<open>SettleJob\<close> and call under way
  goes the promise whose callbacks it holds.
\<close>

fun job_action :: "job \<Rightarrow> action option" where
  "job_action RunJob = None"
| "job_action (ActionJob a p) = Some a"
| "job_action (SettleJob a p r) = Some a"
| "job_action (CleanupJob a) = Some a"

fun job_binding :: "job \<Rightarrow> (action \<times> promise) option" where
  "job_binding (ActionJob a p) = Some (a, p)"
| "job_binding (SettleJob a p r) = Some (a, p)"
| "job_binding _ = None"

definition in_flight :: "queue_state \<Rightarrow> action list" where
  "in_flight s = List.map_filter job_action (microtasks s) @ map fst (unsettled s)"

definition bindings :: "queue_state \<Rightarrow> (action \<times> promise) list" where
  "bindings s = List.map_filter job_binding (microtasks s) @ unsettled s"

definition known :: "action \<Rightarrow> queue_state \<Rightarrow> bool" where
  "known a s \<longleftrightarrow> a \<in> set (queue s) \<or> a \<in> set (in_flight s)"

text \<open>
  A sequence of events is orderly when no action is pushed while the queue is still
  dealing with an earlier push of the same action.
\<close>

fun admissible :: "event \<Rightarrow> queue_state \<Rightarrow> bool" where
  "admissible (Push a) s = (\<not> known a s)"
| "admissible _ s = True"

fun orderly :: "queue_state \<Rightarrow> event list \<Rightarrow> bool" where
  "orderly s [] = True"
| "orderly s (e # es) = (admissible e s \<and> orderly (snd (step e s)) es)"

text \<open>
  What holds of the bookkeeping as long as the events are orderly: an action occurs once
  among the pending and the others the queue deals with; a pending action has an entry
  in \<^verbatim>\<open>promises\<close>; the callbacks a job or a call holds are those of the entry of its
  action; two actions are not bound to the same promise; and every promise in
  \<^verbatim>\<open>promises\<close> has been made.
\<close>

definition consistent :: "queue_state \<Rightarrow> bool" where
  "consistent s \<longleftrightarrow>
     distinct (queue s @ in_flight s) \<and>
     (\<forall>a \<in> set (queue s). promises s a \<noteq> None) \<and>
     (\<forall>(a, p) \<in> set (bindings s). promises s a = Some p) \<and>
     (\<forall>a b p. promises s a = Some p \<and> promises s b = Some p \<longrightarrow> a = b) \<and>
     (\<forall>a p. promises s a = Some p \<longrightarrow> p < allocated s)"

text \<open>The calls of \<^verbatim>\<open>resolve\<close> or \<^verbatim>\<open>reject\<close> of one promise in a trace.\<close>

fun settles :: "promise \<Rightarrow> effect \<Rightarrow> bool" where
  "settles p (Settled q r) = (p = q)"
| "settles p _ = False"

definition settlements :: "promise \<Rightarrow> effect list \<Rightarrow> nat" where
  "settlements p log = length (filter (settles p) log)"

fun is_thrown :: "effect \<Rightarrow> bool" where
  "is_thrown (Thrown e) = True"
| "is_thrown _ = False"

definition settled_once :: "effect list \<Rightarrow> queue_state \<Rightarrow> bool" where
  "settled_once log s \<longleftrightarrow>
     (\<forall>p. settlements p log \<le> 1 \<and>
          (settlements p log = 1 \<longrightarrow> \<not> live p s \<and> p < allocated s))"

text \<open>
  Where the callbacks and the outcomes come from. \<open>origin es log p r\<close>: some action
  was pushed with the promise \<open>p\<close> and a call of it completed with \<open>r\<close>. An entry
  of \<^verbatim>\<open>promises\<close>, and the callbacks a job or a call holds, go back to a push of that
  action that returned that promise; the outcome in a \<open>SettleJob\<close>, and the outcome a
  promise was settled with, go back to the completion of a call of that action.
\<close>

definition origin :: "event list \<Rightarrow> effect list \<Rightarrow> promise \<Rightarrow> outcome \<Rightarrow> bool" where
  "origin es log p r \<longleftrightarrow> (\<exists>a. Pushed a p \<in> set log \<and> Completes a p r \<in> set es)"

definition attributed :: "event list \<Rightarrow> effect list \<Rightarrow> queue_state \<Rightarrow> bool" where
  "attributed es log s \<longleftrightarrow>
     (\<forall>a p. promises s a = Some p \<longrightarrow> Pushed a p \<in> set log) \<and>
     (\<forall>a p. ActionJob a p \<in> set (microtasks s) \<longrightarrow> Pushed a p \<in> set log) \<and>
     (\<forall>a p r. SettleJob a p r \<in> set (microtasks s) \<longrightarrow>
        Pushed a p \<in> set log \<and> Completes a p r \<in> set es) \<and>
     (\<forall>a p. (a, p) \<in> set (unsettled s) \<longrightarrow> Pushed a p \<in> set log) \<and>
     (\<forall>p r. Settled p r \<in> set log \<longrightarrow> origin es log p r)"

text \<open>
  The scheduler is supplied when enough \<open>RunJob\<close>s are waiting to start what can be
  started: as many as there are pending actions, or free places under the limit,
  whichever is less. The Set \<open>running\<close> is tracked when it holds just the actions
  the queue is dealing with besides the pending ones.
\<close>

definition run_jobs :: "queue_state \<Rightarrow> nat" where
  "run_jobs s = length (filter (\<lambda>j. j = RunJob) (microtasks s))"

definition free_places :: "queue_state \<Rightarrow> int" where
  "free_places s = concurrencyLimit s - int (length (running s))"

definition supplied :: "queue_state \<Rightarrow> bool" where
  "supplied s \<longleftrightarrow> min (int (length (queue s))) (free_places s) \<le> int (run_jobs s)"

definition tracked :: "queue_state \<Rightarrow> bool" where
  "tracked s \<longleftrightarrow> distinct (running s) \<and> set (running s) = set (in_flight s)"

section \<open>The timeout wrapper: \<open>timeout\<close>, exported as \<open>asyncTimeout\<close>\<close>

text \<open>
  \<^verbatim>\<open>class TimeoutExpiredError extends Error\<close> (lines 52 to 59). The constructor builds
  a message from \<^verbatim>\<open>func.name || '<anonymous>'\<close> and from the time, hands it to the
  constructor of \<^verbatim>\<open>Error\<close>, which stores it as \<^verbatim>\<open>message\<close>, and sets \<^verbatim>\<open>name\<close>
  to the name of the class. These two are the only properties the class and its
  constructor store in the object. All that the constructor reads of \<^verbatim>\<open>func\<close> is its
  name, the empty string for a function that has none.
\<close>

record js_error =
  name :: string
  message :: string

text \<open>
  What the constructors store in the object under a property name: the message under
  \<^verbatim>\<open>message\<close>, the name of the class under \<^verbatim>\<open>name\<close>, and nothing (\<open>None\<close>) under
  any other name. Neither \<^verbatim>\<open>Error.prototype\<close> nor \<^verbatim>\<open>Object.prototype\<close> has a
  property called \<^verbatim>\<open>functionName\<close> or \<^verbatim>\<open>timeoutMs\<close>, so reading either of an object
  in which the constructors stored nothing under it gives \<^verbatim>\<open>undefined\<close>. What an
  engine adds to every \<^verbatim>\<open>Error\<close> on its own account (a stack trace) and what the
  prototypes provide are not part of the model.
\<close>

definition stored_property :: "js_error \<Rightarrow> string \<Rightarrow> string option" where
  "stored_property e k =
     (if k = ''name'' then Some (name e)
      else if k = ''message'' then Some (message e)
      else None)"

text \<open>
  The time is a JavaScript number. The model takes the times that are safe integers,
  those of absolute value at most \<^verbatim>\<open>2^53 - 1\<close>: a JavaScript number holds each of them
  exactly, and the template string \<^verbatim>\<open>${time}\<close> writes each in full decimal, with a minus
  sign when it is negative. (From \<^verbatim>\<open>1e21\<close> on the template string uses the exponent
  form, and it also writes fractions; such times are outside the type.)
\<close>

typedef safe_integer = "{i :: int. \<bar>i\<bar> \<le> 9007199254740991}"
  by (rule exI [of _ 0]) simp

definition digit :: "nat \<Rightarrow> char" where
  "digit d = ''0123456789'' ! d"

fun decimal :: "nat \<Rightarrow> string" where
  "decimal n = (if n < 10 then [digit n] else decimal (n div 10) @ [digit (n mod 10)])"

declare decimal.simps [simp del]

definition number_string :: "safe_integer \<Rightarrow> string" where
  "number_string t =
     (let i = Rep_safe_integer t
      in if i < 0 then CHR ''-'' # decimal (nat (- i)) else decimal (nat i))"

definition TimeoutExpiredError :: "string \<Rightarrow> safe_integer \<Rightarrow> js_error" where
  "TimeoutExpiredError func time =
     (let funcName = (if func = [] then ''<anonymous>'' else func);
          msg = ''Timeout-wrapped function '' @ funcName @ '' took longer than '' @
                number_string time @ ''ms to resolve''
      in \<lparr>name = ''TimeoutExpiredError'', message = msg\<rparr>)"

text \<open>
  \<^verbatim>\<open>timeout(func, ms = 5000, { rejectOnTimeout = true } = {})\<close> (line 73): an argument
  left out takes its default.
\<close>

record wrapper =
  func_name :: string
  ms :: safe_integer
  rejectOnTimeout :: bool

definition timeout :: "string \<Rightarrow> safe_integer option \<Rightarrow> bool option \<Rightarrow> wrapper" where
  "timeout func ms_arg option_arg =
     \<lparr>func_name = func,
      ms = (case ms_arg of None \<Rightarrow> Abs_safe_integer 5000 | Some m \<Rightarrow> m),
      rejectOnTimeout = (case option_arg of None \<Rightarrow> True | Some b \<Rightarrow> b)\<rparr>"

text \<open>
  One call of \<^verbatim>\<open>timeoutified\<close> (lines 74 to 86) makes a promise, and its executor sets
  \<^verbatim>\<open>overran\<close> to false, arms the timer \<^verbatim>\<open>kill\<close> and applies \<^verbatim>\<open>func\<close>. That call
  either returns a promise, or it throws (also when what \<^verbatim>\<open>func\<close> returns has no
  \<^verbatim>\<open>finally\<close>); an exception in an executor rejects the promise under construction
  and the rest of the executor is skipped.

  The state of one call: the flag, the timer, whether the promise of \<^verbatim>\<open>func\<close> is still to
  settle, and the calls made so far of the \<^verbatim>\<open>resolve\<close> and \<^verbatim>\<open>reject\<close> of the promise
  that \<^verbatim>\<open>timeoutified\<close> returned. The first of these calls decides that promise; a
  later one has no effect on it.

  What a function throws, or a promise is rejected with, is any value. It may be an
  object of the class \<^verbatim>\<open>TimeoutExpiredError\<close>, also when it comes from \<^verbatim>\<open>func\<close>, which
  can itself be a wrapped function: \<open>TimeoutExpired\<close>; every other value is a
  \<open>Failure\<close>.
\<close>

datatype timer = Armed | Fired | Cleared

datatype 'e failure = TimeoutExpired js_error | Failure 'e

datatype 'e applied = Threw "'e failure" | Promised

datatype ('v, 'e) result = Returned 'v | Failed "'e failure"

datatype ('v, 'e) settlement = Resolve 'v | Reject "'e failure"

record ('v, 'e) call =
  overran :: bool
  kill :: timer
  awaiting :: bool
  calls :: "('v, 'e) settlement list"

definition timeoutified :: "wrapper \<Rightarrow> 'e applied \<Rightarrow> ('v, 'e) call" where
  "timeoutified w r =
     (case r of
        Threw e \<Rightarrow> \<lparr>overran = False, kill = Armed, awaiting = False, calls = [Reject e]\<rparr>
      | Promised \<Rightarrow> \<lparr>overran = False, kill = Armed, awaiting = True, calls = []\<rparr>)"

text \<open>\<^verbatim>\<open>clearTimeout\<close> disarms a timer that has not fired and does nothing otherwise.\<close>

definition clearTimeout :: "timer \<Rightarrow> timer" where
  "clearTimeout t = (case t of Armed \<Rightarrow> Cleared | Fired \<Rightarrow> Fired | Cleared \<Rightarrow> Cleared)"

text \<open>The callback of \<^verbatim>\<open>setTimeout\<close> (lines 77 to 81).\<close>

definition on_deadline :: "wrapper \<Rightarrow> ('v, 'e) call \<Rightarrow> ('v, 'e) call" where
  "on_deadline w s =
     (let s1 = (if rejectOnTimeout w
                then s\<lparr>calls := calls s @
                       [Reject (TimeoutExpired (TimeoutExpiredError (func_name w) (ms w)))]\<rparr>
                else s)
      in s1\<lparr>overran := True\<rparr>)"

text \<open>
  The reactions of lines 83 and 84 to the promise of \<^verbatim>\<open>func\<close> settling with \<open>r\<close>: first
  \<^verbatim>\<open>clearTimeout(kill)\<close>, then \<^verbatim>\<open>!overran && resolve(ret)\<close> or
  \<^verbatim>\<open>!overran && reject(err)\<close>. Both are promise reactions and a timer callback is a
  task of the event loop, which starts no task while a reaction is waiting, so the
  timer cannot fire between the two.
\<close>

definition forwarded :: "('v, 'e) result \<Rightarrow> ('v, 'e) settlement" where
  "forwarded r = (case r of Returned v \<Rightarrow> Resolve v | Failed e \<Rightarrow> Reject e)"

definition on_result :: "('v, 'e) result \<Rightarrow> ('v, 'e) call \<Rightarrow> ('v, 'e) call" where
  "on_result r s =
     (let s1 = s\<lparr>kill := clearTimeout (kill s)\<rparr>
      in if overran s1 then s1 else s1\<lparr>calls := calls s1 @ [forwarded r]\<rparr>)"

text \<open>
  What happens to a call: the time is up (\<open>Deadline\<close>), which runs the callback of the
  timer if the timer is armed, or the promise of \<^verbatim>\<open>func\<close> settles (\<open>Result r\<close>), which a
  promise does once. An event that cannot happen leaves the state as it is.
\<close>

datatype ('v, 'e) tevent = Deadline | Result "('v, 'e) result"

fun tstep :: "wrapper \<Rightarrow> ('v, 'e) tevent \<Rightarrow> ('v, 'e) call \<Rightarrow> ('v, 'e) call" where
  "tstep w Deadline s = (if kill s = Armed then on_deadline w (s\<lparr>kill := Fired\<rparr>) else s)"
| "tstep w (Result r) s = (if awaiting s then on_result r (s\<lparr>awaiting := False\<rparr>) else s)"

fun tafter :: "wrapper \<Rightarrow> ('v, 'e) call \<Rightarrow> ('v, 'e) tevent list \<Rightarrow> ('v, 'e) call" where
  "tafter w s [] = s"
| "tafter w s (e # es) = tafter w (tstep w e s) es"

text \<open>What the promise returned by \<^verbatim>\<open>timeoutified\<close> has settled with, if it has.\<close>

definition wrapped_outcome :: "('v, 'e) call \<Rightarrow> ('v, 'e) settlement option" where
  "wrapped_outcome s = (case calls s of [] \<Rightarrow> None | c # cs \<Rightarrow> Some c)"

section \<open>Notions used to state the properties of the wrapper\<close>

text \<open>
  The number a decimal text stands for, to state that the message holds the configured
  time.
\<close>

definition digit_value :: "char \<Rightarrow> nat" where
  "digit_value c = of_char c - 48"

definition decimal_value :: "string \<Rightarrow> nat" where
  "decimal_value cs = foldl (\<lambda>n c. 10 * n + digit_value c) 0 cs"

definition number_value :: "string \<Rightarrow> int" where
  "number_value cs =
     (case cs of
        [] \<Rightarrow> 0
      | c # ds \<Rightarrow> if c = CHR ''-'' then - int (decimal_value ds) else int (decimal_value cs))"

text \<open>
  The wrapper itself raises nothing but its timeout error, and that in the timer
  callback only: a rejection of the wrapped call is either the failure of \<^verbatim>\<open>func\<close>
  (what it threw when applied, or what its promise was rejected with), or the
  \<^verbatim>\<open>TimeoutExpiredError\<close> of this wrapper, made with \<^verbatim>\<open>rejectOnTimeout\<close> true by the
  timer that has fired.
\<close>

definition raised_by_timer_only ::
  "wrapper \<Rightarrow> 'e applied \<Rightarrow> ('v, 'e) tevent list \<Rightarrow> ('v, 'e) call \<Rightarrow> bool" where
  "raised_by_timer_only w a es s \<longleftrightarrow>
     (\<forall>x. Reject x \<in> set (calls s) \<longrightarrow>
        Result (Failed x) \<in> set es \<or> a = Threw x \<or>
        (rejectOnTimeout w \<and>
         x = TimeoutExpired (TimeoutExpiredError (func_name w) (ms w)) \<and>
         kill s = Fired \<and> overran s))"

section \<open>Properties of the queue\<close>

subsection \<open>Traces\<close>

lemma exec_append:
  "exec s (es @ fs) =
     (case exec s es of (o1, s1) \<Rightarrow> (case exec s1 fs of (o2, s2) \<Rightarrow> (o1 @ o2, s2)))"
  by (induction es arbitrary: s) (auto split: prod.splits)

lemma after_Nil [simp]: "after s [] = s"
  by (simp add: after_def)

lemma trace_Nil [simp]: "trace s [] = []"
  by (simp add: trace_def)

lemma after_snoc: "after s (es @ [e]) = snd (step e (after s es))"
  by (simp add: after_def exec_append split: prod.splits)

lemma trace_snoc: "trace s (es @ [e]) = trace s es @ fst (step e (after s es))"
  by (simp add: after_def trace_def exec_append split: prod.splits)

lemma after_append: "after s (es @ fs) = after (after s es) fs"
  by (simp add: after_def exec_append split: prod.splits)

lemma trace_append: "trace s (es @ fs) = trace s es @ trace (after s es) fs"
  by (simp add: after_def trace_def exec_append split: prod.splits)

lemma after_Cons: "after s (e # es) = after (snd (step e s)) es"
  by (simp add: after_def split: prod.splits)

lemma trace_Cons: "trace s (e # es) = fst (step e s) @ trace (snd (step e s)) es"
  by (simp add: after_def trace_def split: prod.splits)

subsection \<open>The running set stays within the limit\<close>

lemma length_set_add: "length (set_add x xs) \<le> Suc (length xs)"
  by (simp add: set_add_def)

lemma length_set_delete: "length (set_delete x xs) \<le> length xs"
  by (simp add: set_delete_def)

lemma distinct_set_add: "distinct xs \<Longrightarrow> distinct (set_add x xs)"
  by (simp add: set_add_def)

lemma distinct_set_delete: "distinct xs \<Longrightarrow> distinct (set_delete x xs)"
  by (simp add: set_delete_def distinct_removeAll)

lemma run_limit [simp]: "concurrencyLimit (snd (run s)) = concurrencyLimit s"
  by (simp add: run_def split: list.splits option.splits)

lemma run_within_limit: "within_limit s \<Longrightarrow> within_limit (snd (run s))"
  using length_set_add [of "hd (queue s)" "running s"]
  by (auto simp: run_def within_limit_def distinct_set_add split: list.splits option.splits)

lemma cleanup_limit [simp]: "concurrencyLimit (snd (cleanup a s)) = concurrencyLimit s"
  by (simp add: cleanup_def)

lemma cleanup_within_limit: "within_limit s \<Longrightarrow> within_limit (snd (cleanup a s))"
  unfolding cleanup_def
  by (rule run_within_limit)
     (use length_set_delete [of a "running s"] in
        \<open>auto simp: within_limit_def distinct_set_delete\<close>)

lemma perform_limit [simp]: "concurrencyLimit (snd (perform j s)) = concurrencyLimit s"
  by (cases j) (simp_all add: case_prod_beta)

lemma step_limit [simp]: "concurrencyLimit (snd (step e s)) = concurrencyLimit s"
  by (cases e) (auto simp: push_def clear_def Let_def split: list.splits)

lemma after_limit [simp]: "concurrencyLimit (after s es) = concurrencyLimit s"
  by (induction es rule: rev_induct) (simp_all add: after_snoc)

lemma perform_within_limit:
  assumes "within_limit s" shows "within_limit (snd (perform j s))"
proof (cases j)
  case RunJob
  then show ?thesis using run_within_limit [OF assms] by (simp add: case_prod_beta)
next
  case (CleanupJob a)
  then show ?thesis using cleanup_within_limit [OF assms, of a] by (simp add: case_prod_beta)
qed (use assms in \<open>simp_all add: within_limit_def\<close>)

lemma step_within_limit:
  assumes "within_limit s" shows "within_limit (snd (step e s))"
proof (cases e)
  case Tick
  show ?thesis
  proof (cases "microtasks s")
    case Nil
    then show ?thesis using Tick assms by simp
  next
    case (Cons j js)
    have "within_limit (s\<lparr>microtasks := js\<rparr>)"
      using assms by (simp add: within_limit_def)
    then show ?thesis using Tick Cons by (simp add: perform_within_limit)
  qed
qed (use assms in \<open>simp_all add: within_limit_def push_def clear_def Let_def\<close>)

lemma after_within_limit: "within_limit s \<Longrightarrow> within_limit (after s es)"
  by (induction es rule: rev_induct) (simp_all add: after_snoc step_within_limit)

text \<open>
  The Set \<open>running\<close> itself stays within the limit: for a queue made with a limit
  \<open>k \<ge> 1\<close> and any sequence of pushes, clears, job ticks and completions, it holds
  each action once and its size is at most \<open>k\<close> after every event. (The calls under
  way are another matter, see below for an action pushed twice.)
\<close>

lemma running_never_exceeds_limit:
  "1 \<le> k \<Longrightarrow>
   distinct (running (after (asyncQueue k) es)) \<and>
   int (length (running (after (asyncQueue k) es))) \<le> k"
proof -
  assume k: "1 \<le> k"
  have "within_limit (asyncQueue k)"
    using k by (simp add: within_limit_def asyncQueue_def)
  then have "within_limit (after (asyncQueue k) es)"
    by (rule after_within_limit)
  then show ?thesis
    by (simp add: within_limit_def asyncQueue_def)
qed

lemma running_never_exceeds_limit_example:
  "(1::int) \<le> 2 \<and>
   distinct (running (after (asyncQueue 2) [Push 0, Push 1, Push 2, Tick, Tick, Tick])) \<and>
   int (length (running (after (asyncQueue 2) [Push 0, Push 1, Push 2, Tick, Tick, Tick]))) \<le> 2 \<and>
   running (after (asyncQueue 2) [Push 0, Push 1, Push 2, Tick, Tick, Tick]) = [0, 1] \<and>
   queue (after (asyncQueue 2) [Push 0, Push 1, Push 2, Tick, Tick, Tick]) = [2]"
  using running_never_exceeds_limit [of 2 "[Push 0, Push 1, Push 2, Tick, Tick, Tick]"]
  by (simp add: after_def asyncQueue_def push_def run_def set_add_def thrown_def)

subsection \<open>First in, first out\<close>

lemma map_filter_append: "List.map_filter f (xs @ ys) = List.map_filter f xs @ List.map_filter f ys"
  by (simp add: List.map_filter_def)

lemma pushes_append [simp]: "pushes (xs @ ys) = pushes xs @ pushes ys"
  by (simp add: pushes_def map_filter_append)

lemma starts_append [simp]: "starts (xs @ ys) = starts xs @ starts ys"
  by (simp add: starts_def map_filter_append)

lemma pushes_Nil [simp]: "pushes [] = []"
  by (simp add: pushes_def)

lemma starts_Nil [simp]: "starts [] = []"
  by (simp add: starts_def)

lemma pushes_thrown [simp]: "pushes (thrown r) = []"
  by (cases r) (simp_all add: thrown_def pushes_def)

lemma starts_thrown [simp]: "starts (thrown r) = []"
  by (cases r) (simp_all add: thrown_def starts_def)

lemma run_fifo:
  assumes "subseq (xs @ scheduled s @ queue s) ys"
  shows "subseq (xs @ scheduled (snd (run s)) @ queue (snd (run s))) ys"
proof (cases "concurrencyLimit s \<le> int (length (running s)) \<or> queue s = []")
  case True
  then show ?thesis using assms by (auto simp: run_def)
next
  case False
  then obtain a rest where q: "queue s = a # rest"
    by (cases "queue s") auto
  show ?thesis
  proof (cases "promises s a")
    case None
    have "subseq (xs @ scheduled s @ rest) (xs @ scheduled s @ a # rest)"
      by (intro list_emb_append_mono list_emb_Cons) simp_all
    then have "subseq (xs @ scheduled s @ rest) ys"
      using assms q by (metis subseq_order.trans)
    then show ?thesis using False q None by (simp add: run_def scheduled_def)
  next
    case (Some p)
    then show ?thesis using False q assms
      by (simp add: run_def scheduled_def map_filter_append)
  qed
qed

lemma perform_fifo:
  assumes "subseq (starts log @ scheduled (s\<lparr>microtasks := j # microtasks s\<rparr>) @ queue s) (pushes log)"
  shows "fifo (log @ fst (perform j s)) (snd (perform j s))"
proof (cases j)
  case RunJob
  then show ?thesis using run_fifo [of "starts log" s "pushes log"] assms
    by (simp add: fifo_def case_prod_beta scheduled_def)
next
  case (ActionJob a p)
  then show ?thesis using assms
    by (simp add: fifo_def scheduled_def starts_def pushes_def
        map_filter_append)
next
  case (SettleJob a p r)
  then show ?thesis using assms
    by (simp add: fifo_def scheduled_def starts_def pushes_def map_filter_append)
next
  case (CleanupJob a)
  let ?s = "s\<lparr>running := set_delete a (running s), promises := (promises s)(a := None)\<rparr>"
  have "subseq (starts log @ scheduled ?s @ queue ?s) (pushes log)"
    using assms CleanupJob by (simp add: scheduled_def)
  from run_fifo [OF this] CleanupJob show ?thesis
    by (simp add: fifo_def case_prod_beta cleanup_def)
qed

lemma step_fifo:
  assumes "fifo log s"
  shows "fifo (log @ fst (step e s)) (snd (step e s))"
proof (cases e)
  case (Push a)
  have "subseq ((starts log @ scheduled s @ queue s) @ [a]) (pushes log @ [a])"
    using assms unfolding fifo_def by (intro list_emb_append_mono) simp_all
  then show ?thesis using Push
    by (simp add: fifo_def push_def Let_def scheduled_def map_filter_append
        pushes_def starts_def)
next
  case Clear
  have "subseq (starts log @ scheduled s) ((starts log @ scheduled s) @ queue s)"
    by (rule list_emb_prefix) simp
  then have "subseq (starts log @ scheduled s) (pushes log)"
    using assms unfolding fifo_def by (metis append.assoc subseq_order.trans)
  then show ?thesis using Clear by (simp add: fifo_def clear_def scheduled_def)
next
  case Tick
  show ?thesis
  proof (cases "microtasks s")
    case Nil
    then show ?thesis using Tick assms by simp
  next
    case (Cons j js)
    have "fifo (log @ fst (perform j (s\<lparr>microtasks := js\<rparr>))) (snd (perform j (s\<lparr>microtasks := js\<rparr>)))"
      by (rule perform_fifo) (use assms Cons in \<open>simp add: fifo_def scheduled_def\<close>)
    then show ?thesis using Tick Cons by simp
  qed
next
  case (Completes a p r)
  then show ?thesis using assms
    by (simp add: fifo_def scheduled_def map_filter_append)
qed

lemma exec_fifo: "fifo log s \<Longrightarrow> fifo (log @ trace s es) (after s es)"
proof (induction es rule: rev_induct)
  case Nil
  then show ?case by simp
next
  case (snoc e es)
  from step_fifo [OF snoc.IH [OF snoc.prems], of e] show ?case
    by (simp add: trace_snoc after_snoc)
qed

lemma precedes_Nil [simp]: "\<not> precedes a b []"
  by (simp add: precedes_def)

lemma precedes_Cons:
  "precedes a b (x # xs) \<longleftrightarrow> (if x = a then b \<in> set xs else precedes a b xs)"
  by (simp add: precedes_def)

lemma precedes_in_set: "precedes a b xs \<Longrightarrow> a \<in> set xs \<and> b \<in> set xs"
  by (induction xs) (auto simp: precedes_Cons split: if_splits)

lemma precedes_subseq: "subseq xs ys \<Longrightarrow> precedes a b xs \<Longrightarrow> precedes a b ys"
proof (induction rule: list_emb.induct)
  case (list_emb_Nil ys)
  then show ?case by simp
next
  case (list_emb_Cons xs ys y)
  then show ?case by (auto simp: precedes_Cons dest: precedes_in_set)
next
  case (list_emb_Cons2 x y xs ys)
  then show ?case by (auto simp: precedes_Cons dest: list_emb_set)
qed

lemma precedes_distinct:
  "distinct xs \<Longrightarrow> precedes a b xs \<Longrightarrow> a \<noteq> b \<and> \<not> precedes b a xs"
  by (induction xs) (auto simp: precedes_Cons dest: precedes_in_set split: if_splits)

lemma precedes_total:
  "a \<in> set xs \<Longrightarrow> b \<in> set xs \<Longrightarrow> a \<noteq> b \<Longrightarrow> precedes a b xs \<or> precedes b a xs"
  by (induction xs) (auto simp: precedes_Cons)

text \<open>
  C3. The actions are called in the order in which they were pushed: the sequence of
  calls is a subsequence of the sequence of pushes, whatever the limit and whatever the
  order in which results settle. So when no action is pushed twice, \<open>a\<close> was pushed
  before \<open>b\<close> and both are called, \<open>a\<close> is called before \<open>b\<close> and not after it.
\<close>

theorem starts_follow_push_order:
  "subseq (starts (trace (asyncQueue k) es)) (pushes (trace (asyncQueue k) es)) \<and>
   (distinct (pushes (trace (asyncQueue k) es)) \<and>
    precedes a b (pushes (trace (asyncQueue k) es)) \<and>
    a \<in> set (starts (trace (asyncQueue k) es)) \<and>
    b \<in> set (starts (trace (asyncQueue k) es)) \<longrightarrow>
      precedes a b (starts (trace (asyncQueue k) es)) \<and>
      \<not> precedes b a (starts (trace (asyncQueue k) es)))"
proof -
  let ?t = "trace (asyncQueue k) es"
  have "fifo [] (asyncQueue k)"
    by (simp add: fifo_def asyncQueue_def scheduled_def)
  from exec_fifo [OF this, of es]
  have "subseq (starts ?t @ scheduled (after (asyncQueue k) es) @ queue (after (asyncQueue k) es))
          (pushes ?t)"
    by (simp add: fifo_def)
  moreover have "subseq (starts ?t)
     (starts ?t @ scheduled (after (asyncQueue k) es) @ queue (after (asyncQueue k) es))"
    by (rule list_emb_prefix) simp
  ultimately have sub: "subseq (starts ?t) (pushes ?t)"
    by (metis subseq_order.trans)
  have "precedes a b (starts ?t) \<and> \<not> precedes b a (starts ?t)"
    if d: "distinct (pushes ?t)" and p: "precedes a b (pushes ?t)"
      and a: "a \<in> set (starts ?t)" and b: "b \<in> set (starts ?t)"
  proof -
    from precedes_distinct [OF d p] have ne: "a \<noteq> b" and np: "\<not> precedes b a (pushes ?t)"
      by simp_all
    from np precedes_subseq [OF sub] have "\<not> precedes b a (starts ?t)" by blast
    with precedes_total [OF a b ne] show ?thesis by blast
  qed
  with sub show ?thesis by blast
qed

theorem starts_follow_push_order_witness:
  "distinct (pushes (trace (asyncQueue 2)
      [Push 3, Push 5, Push 8, Tick, Tick, Tick, Tick, Tick,
       Completes 5 1 (Fulfilled 1), Tick, Tick, Tick])) \<and>
   precedes 5 8 (pushes (trace (asyncQueue 2)
      [Push 3, Push 5, Push 8, Tick, Tick, Tick, Tick, Tick,
       Completes 5 1 (Fulfilled 1), Tick, Tick, Tick])) \<and>
   5 \<in> set (starts (trace (asyncQueue 2)
      [Push 3, Push 5, Push 8, Tick, Tick, Tick, Tick, Tick,
       Completes 5 1 (Fulfilled 1), Tick, Tick, Tick])) \<and>
   8 \<in> set (starts (trace (asyncQueue 2)
      [Push 3, Push 5, Push 8, Tick, Tick, Tick, Tick, Tick,
       Completes 5 1 (Fulfilled 1), Tick, Tick, Tick])) \<and>
   precedes 5 8 (starts (trace (asyncQueue 2)
      [Push 3, Push 5, Push 8, Tick, Tick, Tick, Tick, Tick,
       Completes 5 1 (Fulfilled 1), Tick, Tick, Tick])) \<and>
   starts (trace (asyncQueue 2)
      [Push 3, Push 5, Push 8, Tick, Tick, Tick, Tick, Tick,
       Completes 5 1 (Fulfilled 1), Tick, Tick, Tick]) = [3, 5, 8]"
  using starts_follow_push_order [of 2
      "[Push 3, Push 5, Push 8, Tick, Tick, Tick, Tick, Tick,
       Completes 5 1 (Fulfilled 1), Tick, Tick, Tick]" 5 8]
  by (simp add: after_def trace_def asyncQueue_def push_def run_def cleanup_def clear_def
      set_add_def set_delete_def thrown_def Let_def pushes_def starts_def precedes_def)

subsection \<open>A promise that is not live is never settled\<close>

lemma run_allocated [simp]: "allocated (snd (run s)) = allocated s"
  by (simp add: run_def split: list.splits option.splits)

lemma run_not_live: "\<not> live p s \<Longrightarrow> \<not> live p (snd (run s))"
  by (auto simp: run_def live_def split: list.splits option.splits)

lemma perform_not_live:
  assumes "\<not> live p (s\<lparr>microtasks := j # microtasks s\<rparr>)"
  shows "\<not> live p (snd (perform j s)) \<and> Settled p r \<notin> set (fst (perform j s))"
proof (cases j)
  case RunJob
  have "\<not> live p s" using assms RunJob by (simp add: live_def)
  from run_not_live [OF this] show ?thesis using RunJob
    by (cases "fst (run s)") (simp_all add: case_prod_beta thrown_def)
next
  case (CleanupJob a)
  let ?s = "s\<lparr>running := set_delete a (running s), promises := (promises s)(a := None)\<rparr>"
  have "\<not> live p ?s" using assms CleanupJob by (auto simp: live_def)
  from run_not_live [OF this] show ?thesis using CleanupJob
    by (cases "fst (run ?s)") (simp_all add: case_prod_beta thrown_def cleanup_def)
qed (use assms in \<open>auto simp: live_def\<close>)

lemma step_not_live:
  assumes "\<not> live p s" "p < allocated s"
  shows "\<not> live p (snd (step e s)) \<and> p < allocated (snd (step e s)) \<and>
         Settled p r \<notin> set (fst (step e s))"
proof (cases e)
  case Tick
  show ?thesis
  proof (cases "microtasks s")
    case Nil
    then show ?thesis using Tick assms by simp
  next
    case (Cons j js)
    have "\<not> live p (s\<lparr>microtasks := js\<rparr>\<lparr>microtasks := j # microtasks (s\<lparr>microtasks := js\<rparr>)\<rparr>)"
      using assms(1) Cons by (simp add: live_def)
    from perform_not_live [OF this, of r] show ?thesis using Tick Cons assms(2)
      by (cases j) (simp_all add: case_prod_beta cleanup_def)
  qed
next
  case (Completes a q r')
  have "set (remove1 (a, q) (unsettled s)) \<subseteq> set (unsettled s)"
    by (rule set_remove1_subset)
  then have "p \<notin> snd ` set (remove1 (a, q) (unsettled s))"
    using assms(1) by (auto simp: live_def)
  moreover have "p \<noteq> q" if "(a, q) \<in> set (unsettled s)"
    using that assms(1) by (force simp: live_def)
  ultimately show ?thesis using Completes assms
    by (auto simp: live_def)
qed (use assms in \<open>auto simp: live_def push_def clear_def Let_def\<close>)

lemma not_live_never_settled:
  assumes "\<not> live p s" "p < allocated s"
  shows "\<not> live p (after s es) \<and> p < allocated (after s es) \<and>
         Settled p r \<notin> set (trace s es)"
proof (induction es rule: rev_induct)
  case Nil
  then show ?case using assms by simp
next
  case (snoc e es)
  then show ?case using step_not_live [of p "after s es" e r]
    by (simp add: after_snoc trace_snoc)
qed

subsection \<open>An action that is neither pending nor scheduled is not called unless pushed\<close>

lemma run_may_start: "\<not> may_start a s \<Longrightarrow> \<not> may_start a (snd (run s))"
  by (auto simp: run_def may_start_def scheduled_def map_filter_append
      split: list.splits option.splits)

lemma perform_may_start:
  assumes "\<not> may_start a (s\<lparr>microtasks := j # microtasks s\<rparr>)"
  shows "\<not> may_start a (snd (perform j s)) \<and> Called a \<notin> set (fst (perform j s))"
proof (cases j)
  case RunJob
  have "\<not> may_start a s" using assms RunJob by (simp add: may_start_def scheduled_def)
  from run_may_start [OF this] show ?thesis using RunJob
    by (cases "fst (run s)") (simp_all add: case_prod_beta thrown_def)
next
  case (CleanupJob b)
  let ?s = "s\<lparr>running := set_delete b (running s), promises := (promises s)(b := None)\<rparr>"
  have "\<not> may_start a ?s" using assms CleanupJob by (simp add: may_start_def scheduled_def)
  from run_may_start [OF this] show ?thesis using CleanupJob
    by (cases "fst (run ?s)") (simp_all add: case_prod_beta thrown_def cleanup_def)
qed (use assms in \<open>auto simp: may_start_def scheduled_def map_filter_append\<close>)

lemma step_may_start:
  assumes "\<not> may_start a s" "e \<noteq> Push a"
  shows "\<not> may_start a (snd (step e s)) \<and> Called a \<notin> set (fst (step e s))"
proof (cases e)
  case Tick
  show ?thesis
  proof (cases "microtasks s")
    case Nil
    then show ?thesis using Tick assms by simp
  next
    case (Cons j js)
    have "\<not> may_start a (s\<lparr>microtasks := js\<rparr>\<lparr>microtasks := j # microtasks (s\<lparr>microtasks := js\<rparr>)\<rparr>)"
      using assms(1) Cons by (simp add: may_start_def scheduled_def)
    from perform_may_start [OF this] show ?thesis using Tick Cons
      by simp
  qed
qed (use assms in \<open>auto simp: may_start_def scheduled_def push_def clear_def Let_def map_filter_append\<close>)

lemma not_called_unless_pushed:
  assumes "\<not> may_start a s" "Push a \<notin> set es"
  shows "\<not> may_start a (after s es) \<and> Called a \<notin> set (trace s es)"
  using assms(2)
proof (induction es rule: rev_induct)
  case Nil
  then show ?case using assms(1) by simp
next
  case (snoc e es)
  then show ?case using step_may_start [of a "after s es" e]
    by (auto simp: after_snoc trace_snoc)
qed

subsection \<open>Jobs are performed in the order in which they were queued\<close>

lemma run_microtasks: "\<exists>js. microtasks (snd (run s)) = microtasks s @ js"
  by (simp add: run_def split: list.splits option.splits)

lemma perform_microtasks: "\<exists>js. microtasks (snd (perform j s)) = microtasks s @ js"
proof (cases j)
  case RunJob
  then show ?thesis using run_microtasks [of s] by (simp add: case_prod_beta)
next
  case (CleanupJob a)
  then show ?thesis
    using run_microtasks [of "s\<lparr>running := set_delete a (running s), promises := (promises s)(a := None)\<rparr>"]
    by (simp add: case_prod_beta cleanup_def)
qed simp_all

lemma ticks_reach_job:
  "microtasks s = js @ j # rest \<Longrightarrow>
   \<exists>rest'. microtasks (after s (replicate (length js) Tick)) = j # rest'"
proof (induction js arbitrary: s rest)
  case Nil
  then show ?case by simp
next
  case (Cons x js)
  let ?s = "snd (step Tick s)"
  obtain add where "microtasks (snd (perform x (s\<lparr>microtasks := js @ j # rest\<rparr>))) =
      (js @ j # rest) @ add"
    using perform_microtasks [of x "s\<lparr>microtasks := js @ j # rest\<rparr>"] by auto
  then have "microtasks ?s = js @ j # (rest @ add)"
    using Cons.prems by simp
  from Cons.IH [OF this] show ?case
    by (simp add: after_Cons)
qed

text \<open>
  Whatever else the queue holds, when the result of a call under way settles, the
  promise whose callbacks the call holds is settled with it, once the jobs queued
  before have been performed.
\<close>

lemma call_under_way_settles:
  assumes "(a, p) \<in> set (unsettled s)"
  shows "Settled p r \<in> set (trace s (Completes a p r # replicate (Suc (length (microtasks s))) Tick))"
proof -
  let ?s1 = "snd (step (Completes a p r) s)"
  let ?n = "length (microtasks s)"
  have m: "microtasks ?s1 = microtasks s @ SettleJob a p r # []"
    using assms by simp
  from ticks_reach_job [OF m] obtain rest where
    r: "microtasks (after ?s1 (replicate ?n Tick)) = SettleJob a p r # rest"
    by auto
  have "Settled p r \<in> set (fst (step Tick (after ?s1 (replicate ?n Tick))))"
    using r by simp
  then have "Settled p r \<in> set (trace ?s1 (replicate ?n Tick @ [Tick]))"
    by (simp add: trace_snoc)
  moreover have "replicate ?n Tick @ [Tick] = replicate (Suc ?n) Tick"
    by (simp add: replicate_append_same)
  ultimately show ?thesis
    by (simp add: trace_Cons del: replicate_Suc)
qed

subsection \<open>Orderly pushes\<close>

lemma orderly_snoc: "orderly s (es @ [e]) \<longleftrightarrow> orderly s es \<and> admissible e (after s es)"
  by (induction es arbitrary: s) (auto simp: after_Cons)

lemma binding_actions: "(a, p) \<in> set (bindings s) \<Longrightarrow> a \<in> set (in_flight s)"
proof -
  have "(a, p) \<in> set (List.map_filter job_binding js) \<Longrightarrow> a \<in> set (List.map_filter job_action js)" for js
  proof (induction js)
    case Nil
    then show ?case by simp
  next
    case (Cons j js)
    then show ?case by (cases j) auto
  qed
  then show "(a, p) \<in> set (bindings s) \<Longrightarrow> a \<in> set (in_flight s)"
    by (force simp: bindings_def in_flight_def)
qed

lemma in_flight_head:
  "in_flight (s\<lparr>microtasks := j # js\<rparr>) =
     (case job_action j of None \<Rightarrow> [] | Some a \<Rightarrow> [a]) @ in_flight (s\<lparr>microtasks := js\<rparr>)"
  by (cases j) (simp_all add: in_flight_def)

lemma bindings_head:
  "bindings (s\<lparr>microtasks := j # js\<rparr>) =
     (case job_binding j of None \<Rightarrow> [] | Some b \<Rightarrow> [b]) @ bindings (s\<lparr>microtasks := js\<rparr>)"
  by (cases j) (simp_all add: bindings_def)

lemma consistent_bound: "consistent s \<Longrightarrow> a \<in> set (queue s) \<Longrightarrow> \<exists>p. promises s a = Some p"
  by (auto simp: consistent_def)

lemma run_consistent:
  assumes "consistent s"
  shows "consistent (snd (run s)) \<and> fst (run s) = None"
proof (cases "concurrencyLimit s \<le> int (length (running s)) \<or> queue s = []")
  case True
  then show ?thesis using assms by (auto simp: run_def)
next
  case False
  then obtain a rest where q: "queue s = a # rest"
    by (cases "queue s") auto
  then obtain p where p: "promises s a = Some p"
    using consistent_bound [OF assms, of a] by auto
  let ?s = "s\<lparr>queue := rest, running := set_add a (running s),
               microtasks := microtasks s @ [ActionJob a p]\<rparr>"
  have r: "run s = (None, ?s)"
    using False q p by (simp add: run_def)
  have f: "in_flight ?s = List.map_filter job_action (microtasks s) @ a # map fst (unsettled s)"
    by (simp add: in_flight_def map_filter_append)
  have b: "set (bindings ?s) = insert (a, p) (set (bindings s))"
    by (auto simp: bindings_def map_filter_append)
  have "distinct (queue ?s @ in_flight ?s)"
    using assms q unfolding f by (auto simp: consistent_def in_flight_def)
  moreover have "\<forall>a \<in> set (queue ?s). promises ?s a \<noteq> None"
    using assms q by (auto simp: consistent_def)
  moreover have "\<forall>(a, p) \<in> set (bindings ?s). promises ?s a = Some p"
    using assms p unfolding b by (auto simp: consistent_def)
  ultimately have "consistent ?s"
    using assms unfolding consistent_def [of ?s] by (simp add: consistent_def)
  then show ?thesis using r by simp
qed

lemma perform_consistent:
  assumes "consistent (s\<lparr>microtasks := j # microtasks s\<rparr>)"
  shows "consistent (snd (perform j s)) \<and> (\<forall>x \<in> set (fst (perform j s)). \<not> is_thrown x)"
proof -
  let ?s = "s\<lparr>microtasks := j # microtasks s\<rparr>"
  have s: "s\<lparr>microtasks := microtasks s\<rparr> = s" by simp
  have d: "distinct (queue s @ (case job_action j of None \<Rightarrow> [] | Some a \<Rightarrow> [a]) @ in_flight s)"
    using assms in_flight_head [where s = s and j = j and js = "microtasks s"] by (simp add: consistent_def s)
  have b: "\<forall>(a, p) \<in> set ((case job_binding j of None \<Rightarrow> [] | Some b \<Rightarrow> [b]) @ bindings s).
             promises s a = Some p"
    using assms bindings_head [where s = s and j = j and js = "microtasks s"] by (simp add: consistent_def s)
  have rest: "(\<forall>a \<in> set (queue s). promises s a \<noteq> None) \<and>
     (\<forall>a b p. promises s a = Some p \<and> promises s b = Some p \<longrightarrow> a = b) \<and>
     (\<forall>a p. promises s a = Some p \<longrightarrow> p < allocated s)"
    using assms by (simp add: consistent_def)
  show ?thesis
  proof (cases j)
    case RunJob
    have "consistent s"
      using d b rest RunJob by (simp add: consistent_def)
    from run_consistent [OF this] show ?thesis using RunJob
      by (simp add: case_prod_beta thrown_def)
  next
    case (ActionJob a p)
    have "in_flight (s\<lparr>unsettled := unsettled s @ [(a, p)]\<rparr>) = in_flight s @ [a]"
      by (simp add: in_flight_def)
    moreover have "set (bindings (s\<lparr>unsettled := unsettled s @ [(a, p)]\<rparr>)) =
       insert (a, p) (set (bindings s))"
      by (auto simp: bindings_def)
    ultimately show ?thesis using d b rest ActionJob
      by (auto simp: consistent_def)
  next
    case (SettleJob a p r)
    have "in_flight (s\<lparr>microtasks := microtasks s @ [CleanupJob a]\<rparr>) =
        List.map_filter job_action (microtasks s) @ a # map fst (unsettled s)"
      by (simp add: in_flight_def map_filter_append)
    moreover have "bindings (s\<lparr>microtasks := microtasks s @ [CleanupJob a]\<rparr>) = bindings s"
      by (simp add: bindings_def map_filter_append)
    ultimately show ?thesis using d b rest SettleJob
      by (auto simp: consistent_def in_flight_def)
  next
    case (CleanupJob a)
    let ?c = "s\<lparr>running := set_delete a (running s), promises := (promises s)(a := None)\<rparr>"
    have a: "a \<notin> set (queue s)" "a \<notin> set (in_flight s)"
      using d CleanupJob by auto
    have "in_flight ?c = in_flight s" "bindings ?c = bindings s"
      by (simp_all add: in_flight_def bindings_def)
    moreover have "\<forall>(b, p) \<in> set (bindings s). b \<noteq> a"
      using a(2) binding_actions [of _ _ s] by auto
    ultimately have "consistent ?c"
      using d b rest a CleanupJob by (auto simp: consistent_def)
    from run_consistent [OF this] show ?thesis using CleanupJob
      by (simp add: case_prod_beta thrown_def cleanup_def)
  qed
qed

lemma remove1_keys:
  "distinct (map fst xs) \<Longrightarrow> (a, p) \<in> set xs \<Longrightarrow>
   distinct (map fst (remove1 (a, p) xs)) \<and> a \<notin> fst ` set (remove1 (a, p) xs) \<and>
   set (remove1 (a, p) xs) \<subseteq> set xs"
proof (induction xs)
  case Nil
  then show ?case by simp
next
  case (Cons x xs)
  then show ?case by (cases x) (force simp: image_iff)
qed

lemma step_consistent:
  assumes "consistent s" "admissible e s"
  shows "consistent (snd (step e s)) \<and> (\<forall>x \<in> set (fst (step e s)). \<not> is_thrown x)"
proof (cases e)
  case (Push a)
  let ?s = "s\<lparr>allocated := Suc (allocated s), promises := (promises s)(a \<mapsto> allocated s),
               queue := queue s @ [a], microtasks := microtasks s @ [RunJob]\<rparr>"
  have a: "a \<notin> set (queue s)" "a \<notin> set (in_flight s)"
    using assms(2) Push by (simp_all add: known_def)
  have "in_flight ?s = in_flight s" "bindings ?s = bindings s"
    by (simp_all add: in_flight_def bindings_def map_filter_append)
  moreover have "\<forall>(b, p) \<in> set (bindings s). b \<noteq> a"
    using a(2) binding_actions [of _ _ s] by auto
  ultimately have "consistent ?s"
    using assms(1) a by (fastforce simp: consistent_def)
  then show ?thesis using Push by (simp add: push_def Let_def)
next
  case Clear
  have "in_flight (s\<lparr>queue := []\<rparr>) = in_flight s" "bindings (s\<lparr>queue := []\<rparr>) = bindings s"
    by (simp_all add: in_flight_def bindings_def)
  then show ?thesis using Clear assms(1) by (simp add: consistent_def clear_def)
next
  case Tick
  show ?thesis
  proof (cases "microtasks s")
    case Nil
    then show ?thesis using Tick assms by simp
  next
    case (Cons j js)
    have "s\<lparr>microtasks := j # js\<rparr> = s"
      unfolding Cons [symmetric] by simp
    then have "consistent (s\<lparr>microtasks := js\<rparr>\<lparr>microtasks := j # microtasks (s\<lparr>microtasks := js\<rparr>)\<rparr>)"
      using assms(1) by simp
    from perform_consistent [OF this] show ?thesis using Tick Cons by simp
  qed
next
  case (Completes a p r)
  show ?thesis
  proof (cases "(a, p) \<in> set (unsettled s)")
    case False
    then show ?thesis using Completes assms by simp
  next
    case True
    let ?u = "remove1 (a, p) (unsettled s)"
    let ?s = "s\<lparr>unsettled := ?u, microtasks := microtasks s @ [SettleJob a p r]\<rparr>"
    have d: "distinct (map fst (unsettled s))"
      using assms(1) by (simp add: consistent_def in_flight_def)
    note k = remove1_keys [OF d True]
    have f: "in_flight ?s = List.map_filter job_action (microtasks s) @ a # map fst ?u"
      by (simp add: in_flight_def map_filter_append)
    have b: "set (bindings ?s) \<subseteq> set (bindings s)"
      using k True by (auto simp: bindings_def map_filter_append)
    have "distinct (queue ?s @ in_flight ?s)"
    proof -
      have 1: "set (map fst ?u) \<subseteq> set (map fst (unsettled s))" using k by auto
      have 2: "a \<notin> set (map fst ?u)" "distinct (map fst ?u)" using k by simp_all
      have 3: "a \<in> set (map fst (unsettled s))" using True by force
      have 4: "distinct (queue s @ List.map_filter job_action (microtasks s) @
                 map fst (unsettled s))"
        using assms(1) by (simp add: consistent_def in_flight_def)
      show ?thesis unfolding f using 1 2 3 4
        by (auto simp del: set_map)
    qed
    moreover have "\<forall>(a, p) \<in> set (bindings ?s). promises ?s a = Some p"
      using assms(1) b by (auto simp: consistent_def)
    ultimately have "consistent ?s"
      using assms(1) unfolding consistent_def [of ?s] by (simp add: consistent_def)
    then show ?thesis using Completes True by simp
  qed
qed

lemma orderly_consistent:
  assumes "consistent s" "orderly s es"
  shows "consistent (after s es) \<and> (\<forall>x \<in> set (trace s es). \<not> is_thrown x)"
  using assms(2)
proof (induction es rule: rev_induct)
  case Nil
  then show ?case using assms(1) by simp
next
  case (snoc e es)
  then have "consistent (after s es)" "admissible e (after s es)"
    and t: "\<forall>x \<in> set (trace s es). \<not> is_thrown x"
    by (simp_all add: orderly_snoc)
  from step_consistent [OF this(1,2)] t show ?case
    by (auto simp: after_snoc trace_snoc)
qed

subsection \<open>Each promise is settled at most once\<close>

lemma settlements_append [simp]:
  "settlements p (xs @ ys) = settlements p xs + settlements p ys"
  by (simp add: settlements_def)

lemma settlements_zero: "settlements p xs = 0 \<longleftrightarrow> (\<forall>r. Settled p r \<notin> set xs)"
proof (induction xs)
  case Nil
  then show ?case by (simp add: settlements_def)
next
  case (Cons x xs)
  then show ?case by (cases x) (auto simp: settlements_def)
qed

lemma settlements_Nil [simp]: "settlements p [] = 0"
  by (simp add: settlements_def)

lemma thrown_settlements [simp]: "settlements p (thrown r) = 0"
  by (cases r) (simp_all add: thrown_def settlements_def)

lemma perform_settlements:
  "settlements p (fst (perform j s)) = (if \<exists>a r. j = SettleJob a p r then 1 else 0)"
proof (cases j)
  case (ActionJob a q)
  then show ?thesis by (simp add: settlements_def)
next
  case (SettleJob a q r)
  then show ?thesis by (auto simp: settlements_def)
qed (simp_all add: case_prod_beta)

lemma step_settlements:
  "settlements p (fst (step e s)) =
     (if e = Tick \<and> (\<exists>a r js. microtasks s = SettleJob a p r # js) then 1 else 0)"
proof (cases e)
  case Tick
  then show ?thesis
    by (cases "microtasks s") (auto simp: perform_settlements)
qed (simp_all add: settlements_def push_def Let_def)

lemma settle_job_ends_promise:
  assumes "consistent s" "microtasks s = SettleJob a p r # js"
  shows "\<not> live p (snd (step Tick s)) \<and> p < allocated (snd (step Tick s))"
proof -
  have s: "s = s\<lparr>microtasks := js\<rparr>\<lparr>microtasks := SettleJob a p r # js\<rparr>"
    using assms(2) by simp
  let ?t = "s\<lparr>microtasks := js\<rparr>"
  have f: "in_flight s = a # in_flight ?t"
    by (subst s, subst in_flight_head) simp
  have b: "bindings s = (a, p) # bindings ?t"
    by (subst s, subst bindings_head) simp
  have bound: "promises s a = Some p"
    using assms(1) b by (simp add: consistent_def)
  have inj: "promises s c = Some p \<Longrightarrow> c = a" for c
    using assms(1) bound by (auto simp: consistent_def)
  have a: "a \<notin> set (queue s)" "a \<notin> set (in_flight ?t)"
    using assms(1) f by (auto simp: consistent_def)
  have t: "promises s c = Some q" if "(c, q) \<in> set (bindings ?t)" for c q
    using that assms(1) b by (auto simp: consistent_def)
  have nb: "(c, p) \<notin> set (bindings ?t)" for c
  proof
    assume c: "(c, p) \<in> set (bindings ?t)"
    then have "c = a" using t inj by blast
    with c binding_actions [of c p ?t] a(2) show False by simp
  qed
  have j: "Some p \<notin> job_promise ` set js"
  proof
    assume "Some p \<in> job_promise ` set js"
    then obtain x where x: "x \<in> set js" "job_promise x = Some p" by force
    from x(2) obtain c where "job_binding x = Some (c, p)" by (cases x) auto
    with x(1) have "(c, p) \<in> set (List.map_filter job_binding js)"
      by (force simp: List.map_filter_def)
    with nb show False by (simp add: bindings_def)
  qed
  have u: "p \<notin> snd ` set (unsettled s)"
    using nb by (force simp: bindings_def)
  have q: "\<forall>c \<in> set (queue s). promises s c \<noteq> Some p"
    using inj a(1) by blast
  have "p < allocated s"
    using assms(1) bound by (auto simp: consistent_def)
  with j u q show ?thesis using assms(2)
    by (simp add: live_def)
qed

lemma step_settled_once:
  assumes "consistent s" "settled_once log s"
  shows "settled_once (log @ fst (step e s)) (snd (step e s))"
  unfolding settled_once_def
proof
  fix p
  let ?out = "fst (step e s)" and ?s = "snd (step e s)"
  have le: "settlements p log \<le> 1"
    and dead: "settlements p log = 1 \<Longrightarrow> \<not> live p s \<and> p < allocated s"
    using assms(2) by (auto simp: settled_once_def)
  show "settlements p (log @ ?out) \<le> 1 \<and>
        (settlements p (log @ ?out) = 1 \<longrightarrow> \<not> live p ?s \<and> p < allocated ?s)"
  proof (cases "settlements p log = 1")
    case True
    from step_not_live [of p s e] dead [OF True]
    have n: "\<not> live p ?s" "p < allocated ?s" "\<forall>r. Settled p r \<notin> set ?out"
      by simp_all
    then have "settlements p ?out = 0" by (simp add: settlements_zero)
    with True n show ?thesis by simp
  next
    case False
    then have z: "settlements p log = 0" using le by simp
    show ?thesis
    proof (cases "e = Tick \<and> (\<exists>a r js. microtasks s = SettleJob a p r # js)")
      case True
      then obtain a r js where m: "microtasks s = SettleJob a p r # js" and e: "e = Tick"
        by blast
      from settle_job_ends_promise [OF assms(1) m] e
      have n: "\<not> live p ?s \<and> p < allocated ?s" by simp
      have "settlements p ?out = 1"
        unfolding step_settlements using True by simp
      with n z show ?thesis by simp
    next
      case False
      have "settlements p ?out = 0"
        unfolding step_settlements using False by simp
      with z show ?thesis by simp
    qed
  qed
qed

lemma orderly_settled_once:
  assumes "consistent s" "settled_once log s" "orderly s es"
  shows "settled_once (log @ trace s es) (after s es)"
  using assms(3)
proof (induction es rule: rev_induct)
  case Nil
  then show ?case using assms(2) by simp
next
  case (snoc e es)
  then have o: "orderly s es" and i: "settled_once (log @ trace s es) (after s es)"
    by (simp_all add: orderly_snoc)
  from orderly_consistent [OF assms(1) o] have "consistent (after s es)" by simp
  from step_settled_once [OF this i, of e] show ?case
    by (simp add: after_snoc trace_snoc)
qed

text \<open>
  As long as no action is pushed while the queue is still dealing with an earlier push of
  it, the scheduler never throws and no promise is settled twice.
\<close>

lemma orderly_pushes_settle_at_most_once:
  assumes "orderly (asyncQueue k) es"
  shows "Thrown x \<notin> set (trace (asyncQueue k) es) \<and>
         settlements p (trace (asyncQueue k) es) \<le> 1"
proof -
  have c: "consistent (asyncQueue k)"
    by (simp add: consistent_def asyncQueue_def in_flight_def bindings_def)
  have "settled_once [] (asyncQueue k)"
    by (simp add: settled_once_def settlements_def)
  from orderly_settled_once [OF c this assms] orderly_consistent [OF c assms]
  show ?thesis by (force simp: settled_once_def)
qed

subsection \<open>A promise is settled with the outcome of its own action\<close>

lemma origin_mono:
  "origin es log p r \<Longrightarrow> set es \<subseteq> set es' \<Longrightarrow> set log \<subseteq> set log' \<Longrightarrow> origin es' log' p r"
  unfolding origin_def by blast

lemma originI: "Pushed a p \<in> set log \<Longrightarrow> Completes a p r \<in> set es \<Longrightarrow> origin es log p r"
  unfolding origin_def by blast

lemma thrown_mem [simp]:
  "Pushed a p \<notin> set (thrown x)" "Settled p r \<notin> set (thrown x)" "Called a \<notin> set (thrown x)"
  by (cases x; simp add: thrown_def)+

lemma attributed_origin:
  assumes "attributed es log s" "Settled p r \<in> set log"
  shows "origin (es @ fs) (log @ out) p r"
proof -
  have "origin es log p r" using assms by (simp add: attributed_def)
  then show ?thesis by (rule origin_mono) simp_all
qed

lemma attributed_mono:
  assumes "attributed es log s" "\<forall>p r. Settled p r \<notin> set out"
  shows "attributed (es @ fs) (log @ out) s"
  using assms attributed_origin [OF assms(1), of _ _ fs out]
  by (simp add: attributed_def)

lemma run_attributed:
  assumes "attributed es log s"
  shows "attributed es (log @ thrown (fst (run s))) (snd (run s))"
proof -
  have a: "attributed es (log @ thrown (fst (run s))) s"
    using attributed_mono [OF assms, of "thrown (fst (run s))" "[]"] by simp
  show ?thesis
  proof (cases "concurrencyLimit s \<le> int (length (running s)) \<or> queue s = []")
    case True
    then have "snd (run s) = s" by (auto simp: run_def)
    then show ?thesis using a by simp
  next
    case False
    then obtain b rest where q: "queue s = b # rest"
      by (cases "queue s") auto
    show ?thesis
    proof (cases "promises s b")
      case None
      then have "snd (run s) = s\<lparr>queue := rest\<rparr>"
        using False q by (simp add: run_def)
      then show ?thesis using a by (simp add: attributed_def)
    next
      case (Some p)
      then have "snd (run s) = s\<lparr>queue := rest, running := set_add b (running s),
          microtasks := microtasks s @ [ActionJob b p]\<rparr>"
        using False q by (simp add: run_def)
      moreover have "Pushed b p \<in> set log"
        using assms Some by (simp add: attributed_def)
      ultimately show ?thesis using a by (simp add: attributed_def)
    qed
  qed
qed

lemma perform_attributed:
  assumes "attributed es log (s\<lparr>microtasks := j # microtasks s\<rparr>)"
  shows "attributed es (log @ fst (perform j s)) (snd (perform j s))"
proof (cases j)
  case RunJob
  have "attributed es log s"
    using assms RunJob by (simp add: attributed_def)
  from run_attributed [OF this] show ?thesis using RunJob
    by (simp add: case_prod_beta)
next
  case (ActionJob a p)
  have "attributed es (log @ [Called a]) (s\<lparr>microtasks := j # microtasks s\<rparr>)"
    using attributed_mono [OF assms, of "[Called a]" "[]"] by simp
  then show ?thesis using ActionJob by (simp add: attributed_def)
next
  case (SettleJob a p r)
  have o: "origin es (log @ [Settled p r]) q r'" if "Settled q r' \<in> set log" for q r'
    using attributed_origin [OF assms that, of "[]" "[Settled p r]"] by simp
  have "Pushed a p \<in> set log" "Completes a p r \<in> set es"
    using assms SettleJob by (simp_all add: attributed_def)
  then have "origin es (log @ [Settled p r]) p r"
    by (intro originI [of a]) simp_all
  with o show ?thesis using assms SettleJob by (auto simp: attributed_def)
next
  case (CleanupJob a)
  let ?c = "s\<lparr>running := set_delete a (running s), promises := (promises s)(a := None)\<rparr>"
  have "attributed es log ?c"
    using assms CleanupJob by (simp add: attributed_def)
  from run_attributed [OF this] show ?thesis using CleanupJob
    by (simp add: case_prod_beta cleanup_def)
qed

lemma step_attributed:
  assumes "attributed es log s"
  shows "attributed (es @ [e]) (log @ fst (step e s)) (snd (step e s))"
proof -
  have m: "attributed (es @ [e]) log s"
    using attributed_mono [OF assms, of "[]" "[e]"] by simp
  show ?thesis
  proof (cases e)
    case (Push a)
    have "origin (es @ [e]) (log @ [Pushed a (allocated s)]) p r"
      if "Settled p r \<in> set log" for p r
      using attributed_origin [OF assms that] .
    then show ?thesis using Push assms
      by (simp add: attributed_def push_def Let_def)
  next
    case Clear
    then show ?thesis using m by (simp add: attributed_def clear_def)
  next
    case Tick
    show ?thesis
    proof (cases "microtasks s")
      case Nil
      then show ?thesis using Tick m by simp
    next
      case (Cons j js)
      have "s\<lparr>microtasks := j # js\<rparr> = s"
        unfolding Cons [symmetric] by simp
      then have "attributed (es @ [e]) log
          (s\<lparr>microtasks := js\<rparr>\<lparr>microtasks := j # microtasks (s\<lparr>microtasks := js\<rparr>)\<rparr>)"
        using m by simp
      from perform_attributed [OF this] show ?thesis using Tick Cons by simp
    qed
  next
    case (Completes a p r)
    show ?thesis
    proof (cases "(a, p) \<in> set (unsettled s)")
      case False
      then show ?thesis using Completes m by simp
    next
      case True
      have "set (remove1 (a, p) (unsettled s)) \<subseteq> set (unsettled s)"
        by (rule set_remove1_subset)
      moreover have "Pushed a p \<in> set log"
        using assms True by (simp add: attributed_def)
      ultimately show ?thesis using Completes True m
        by (auto simp: attributed_def)
    qed
  qed
qed

lemma exec_attributed:
  "attributed [] [] s \<Longrightarrow> attributed es (trace s es) (after s es)"
proof (induction es rule: rev_induct)
  case Nil
  then show ?case by simp
next
  case (snoc e es)
  from step_attributed [OF snoc.IH [OF snoc.prems], of e] show ?case
    by (simp add: trace_snoc after_snoc)
qed

text \<open>
  Whatever the events, a promise is settled only with the outcome with which a call of
  the action it was pushed with completed.
\<close>

lemma settled_with_own_outcome:
  assumes "Settled p r \<in> set (trace (asyncQueue k) es)"
  shows "\<exists>a. Pushed a p \<in> set (trace (asyncQueue k) es) \<and> Completes a p r \<in> set es"
proof -
  have "attributed [] [] (asyncQueue k)"
    by (simp add: attributed_def asyncQueue_def)
  from exec_attributed [OF this, of es] assms show ?thesis
    unfolding attributed_def origin_def by blast
qed

subsection \<open>The scheduler does not stall\<close>

lemma length_set_delete_distinct:
  "distinct xs \<Longrightarrow> int (length xs) \<le> int (length (set_delete x xs)) + 1"
  by (induction xs) (auto simp: set_delete_def)

lemma set_remove1_insert: "x \<in> set xs \<Longrightarrow> insert x (set (remove1 x xs)) = set xs"
  by (induction xs) auto

lemma run_supplied:
  assumes "consistent s" "tracked s"
    and "min (int (length (queue s))) (free_places s) \<le> int n + 1"
  shows "min (int (length (queue (snd (run s))))) (free_places (snd (run s))) \<le> int n \<and>
         tracked (snd (run s)) \<and> run_jobs (snd (run s)) = run_jobs s"
proof (cases "concurrencyLimit s \<le> int (length (running s)) \<or> queue s = []")
  case True
  then have "snd (run s) = s" by (auto simp: run_def)
  moreover have "min (int (length (queue s))) (free_places s) \<le> 0"
    using True by (auto simp: free_places_def)
  ultimately show ?thesis using assms(2) by simp
next
  case False
  then obtain a rest where q: "queue s = a # rest"
    by (cases "queue s") auto
  then obtain p where p: "promises s a = Some p"
    using assms(1) by (auto simp: consistent_def)
  let ?s = "s\<lparr>queue := rest, running := set_add a (running s),
               microtasks := microtasks s @ [ActionJob a p]\<rparr>"
  have r: "snd (run s) = ?s"
    using False q p by (simp add: run_def)
  have "a \<notin> set (in_flight s)"
    using assms(1) q by (auto simp: consistent_def)
  then have a: "a \<notin> set (running s)"
    using assms(2) by (auto simp: tracked_def)
  have f: "set (in_flight ?s) = insert a (set (in_flight s))"
    by (auto simp: in_flight_def map_filter_append)
  have "tracked ?s"
    using assms(2) a unfolding tracked_def f by (auto simp: set_add_def)
  moreover have "free_places ?s = free_places s - 1"
    using a by (simp add: free_places_def set_add_def)
  moreover have "run_jobs ?s = run_jobs s"
    by (simp add: run_jobs_def)
  ultimately show ?thesis using assms(3) q unfolding r by simp
qed

lemma perform_supplied:
  assumes "consistent (s\<lparr>microtasks := j # microtasks s\<rparr>)"
    and "tracked (s\<lparr>microtasks := j # microtasks s\<rparr>)"
    and "supplied (s\<lparr>microtasks := j # microtasks s\<rparr>)"
  shows "supplied (snd (perform j s)) \<and> tracked (snd (perform j s))"
proof -
  let ?s = "s\<lparr>microtasks := j # microtasks s\<rparr>"
  have s: "s\<lparr>microtasks := microtasks s\<rparr> = s" by simp
  have d: "distinct (queue s @ (case job_action j of None \<Rightarrow> [] | Some a \<Rightarrow> [a]) @ in_flight s)"
    using assms(1) in_flight_head [where s = s and j = j and js = "microtasks s"]
    by (simp add: consistent_def s)
  have f: "set (in_flight ?s) = set (case job_action j of None \<Rightarrow> [] | Some a \<Rightarrow> [a]) \<union> set (in_flight s)"
    using in_flight_head [where s = s and j = j and js = "microtasks s"] by (simp add: s)
  show ?thesis
  proof (cases j)
    case RunJob
    have c: "consistent s"
      using assms(1) RunJob bindings_head [where s = s and j = j and js = "microtasks s"] d
      by (simp add: consistent_def s)
    have t: "tracked s"
      using assms(2) f RunJob by (simp add: tracked_def)
    have n: "run_jobs ?s = Suc (run_jobs s)"
      using RunJob by (simp add: run_jobs_def)
    have "min (int (length (queue s))) (free_places s) \<le> int (run_jobs s) + 1"
      using assms(3) n by (simp add: supplied_def free_places_def)
    from run_supplied [OF c t this] show ?thesis using RunJob
      by (simp add: case_prod_beta supplied_def)
  next
    case (ActionJob a p)
    have "set (in_flight (s\<lparr>unsettled := unsettled s @ [(a, p)]\<rparr>)) = insert a (set (in_flight s))"
      by (auto simp: in_flight_def)
    then show ?thesis using assms(2,3) f ActionJob
      by (simp add: supplied_def tracked_def free_places_def run_jobs_def)
  next
    case (SettleJob a p r)
    have "set (in_flight (s\<lparr>microtasks := microtasks s @ [CleanupJob a]\<rparr>)) =
        insert a (set (in_flight s))"
      by (auto simp: in_flight_def map_filter_append)
    then show ?thesis using assms(2,3) f SettleJob
      by (simp add: supplied_def tracked_def free_places_def run_jobs_def)
  next
    case (CleanupJob a)
    let ?c = "s\<lparr>running := set_delete a (running s), promises := (promises s)(a := None)\<rparr>"
    have a: "a \<notin> set (queue s)" "a \<notin> set (in_flight s)"
      using d CleanupJob by auto
    have "in_flight ?c = in_flight s" "bindings ?c = bindings s"
      by (simp_all add: in_flight_def bindings_def)
    moreover have "\<forall>(b, p) \<in> set (bindings s). b \<noteq> a"
      using a(2) binding_actions [of _ _ s] by auto
    moreover have "bindings ?s = bindings s"
      using CleanupJob bindings_head [where s = s and j = j and js = "microtasks s"]
      by (simp add: s)
    ultimately have c: "consistent ?c"
      using assms(1) d a CleanupJob by (auto simp: consistent_def)
    have "set (running s) = insert a (set (in_flight s))"
      using assms(2) f CleanupJob by (simp add: tracked_def)
    then have "set (set_delete a (running s)) = set (in_flight s)"
      using a(2) by (auto simp: set_delete_def)
    moreover have "in_flight ?c = in_flight s"
      by (simp add: in_flight_def)
    ultimately have t: "tracked ?c"
      using assms(2) by (simp add: tracked_def set_delete_def distinct_removeAll)
    have "distinct (running s)" using assms(2) by (simp add: tracked_def)
    from length_set_delete_distinct [OF this, of a]
    have "free_places ?c \<le> free_places s + 1"
      by (simp add: free_places_def)
    moreover have "run_jobs ?s = run_jobs s" "run_jobs ?c = run_jobs s"
      using CleanupJob by (simp_all add: run_jobs_def)
    ultimately have "min (int (length (queue ?c))) (free_places ?c) \<le> int (run_jobs ?c) + 1"
      using assms(3) by (simp add: supplied_def free_places_def)
    from run_supplied [OF c t this] show ?thesis using CleanupJob
      by (simp add: case_prod_beta supplied_def cleanup_def)
  qed
qed

lemma step_supplied:
  assumes "consistent s" "tracked s" "supplied s" "admissible e s"
  shows "supplied (snd (step e s)) \<and> tracked (snd (step e s))"
proof (cases e)
  case (Push a)
  have "in_flight (snd (step e s)) = in_flight s"
    using Push by (simp add: push_def Let_def in_flight_def map_filter_append)
  then show ?thesis using Push assms(2,3)
    by (simp add: push_def Let_def supplied_def tracked_def free_places_def run_jobs_def)
next
  case Clear
  have "in_flight (snd (step e s)) = in_flight s"
    using Clear by (simp add: clear_def in_flight_def)
  moreover have "0 \<le> int (run_jobs s)" by simp
  ultimately show ?thesis using Clear assms(2)
    by (simp add: clear_def supplied_def tracked_def free_places_def run_jobs_def)
next
  case Tick
  show ?thesis
  proof (cases "microtasks s")
    case Nil
    then show ?thesis using Tick assms by simp
  next
    case (Cons j js)
    have "s\<lparr>microtasks := j # js\<rparr> = s"
      unfolding Cons [symmetric] by simp
    then have "consistent (s\<lparr>microtasks := js\<rparr>\<lparr>microtasks := j # microtasks (s\<lparr>microtasks := js\<rparr>)\<rparr>)"
      "tracked (s\<lparr>microtasks := js\<rparr>\<lparr>microtasks := j # microtasks (s\<lparr>microtasks := js\<rparr>)\<rparr>)"
      "supplied (s\<lparr>microtasks := js\<rparr>\<lparr>microtasks := j # microtasks (s\<lparr>microtasks := js\<rparr>)\<rparr>)"
      using assms by simp_all
    from perform_supplied [OF this] show ?thesis using Tick Cons by simp
  qed
next
  case (Completes a p r)
  show ?thesis
  proof (cases "(a, p) \<in> set (unsettled s)")
    case False
    then show ?thesis using Completes assms by simp
  next
    case True
    let ?s = "s\<lparr>unsettled := remove1 (a, p) (unsettled s),
                 microtasks := microtasks s @ [SettleJob a p r]\<rparr>"
    have "insert (a, p) (set (remove1 (a, p) (unsettled s))) = set (unsettled s)"
      using True by (rule set_remove1_insert)
    then have "fst ` set (unsettled s) = insert a (fst ` set (remove1 (a, p) (unsettled s)))"
      by (metis fst_conv image_insert)
    then have "set (in_flight ?s) = set (in_flight s)"
      by (simp add: in_flight_def map_filter_append)
    then show ?thesis using Completes True assms(2,3)
      by (simp add: supplied_def tracked_def free_places_def run_jobs_def)
  qed
qed

lemma orderly_supplied:
  assumes "consistent s" "tracked s" "supplied s" "orderly s es"
  shows "supplied (after s es) \<and> tracked (after s es)"
  using assms(4)
proof (induction es rule: rev_induct)
  case Nil
  then show ?case using assms by simp
next
  case (snoc e es)
  then have o: "orderly s es" and a: "admissible e (after s es)"
    and i: "supplied (after s es)" "tracked (after s es)"
    by (simp_all add: orderly_snoc)
  from orderly_consistent [OF assms(1) o] have "consistent (after s es)" by simp
  from step_supplied [OF this i(2) i(1) a] show ?case
    by (simp add: after_snoc)
qed

text \<open>
  As long as the pushes are orderly, whenever an action is pending and \<open>running\<close> is
  below the limit, a \<open>RunJob\<close> is waiting in the job queue: the pending action will be
  started.
\<close>

lemma orderly_pushes_do_not_stall:
  assumes "orderly (asyncQueue k) es"
    and "queue (after (asyncQueue k) es) \<noteq> []"
    and "int (length (running (after (asyncQueue k) es))) < k"
  shows "RunJob \<in> set (microtasks (after (asyncQueue k) es))"
proof -
  let ?s = "after (asyncQueue k) es"
  have "consistent (asyncQueue k)" "tracked (asyncQueue k)"
    by (simp_all add: consistent_def tracked_def asyncQueue_def in_flight_def bindings_def)
  moreover have "supplied (asyncQueue k)"
    by (simp add: supplied_def asyncQueue_def run_jobs_def)
  ultimately have "supplied ?s"
    using orderly_supplied [OF _ _ _ assms(1)] by simp
  moreover have "1 \<le> int (length (queue ?s))"
    using assms(2) by (cases "queue ?s") simp_all
  moreover have "1 \<le> free_places ?s"
    using assms(3) by (simp add: free_places_def asyncQueue_def)
  ultimately have "1 \<le> run_jobs ?s"
    by (simp add: supplied_def)
  then have "filter (\<lambda>j. j = RunJob) (microtasks ?s) \<noteq> []"
    by (auto simp: run_jobs_def)
  then show ?thesis
    by (metis (mono_tags, lifting) filter_False)
qed

text \<open>
  As long as the pushes are orderly, \<open>running\<close> holds exactly the actions that are
  scheduled, under way or waiting for their \<^verbatim>\<open>cleanup\<close>, each once: no more than the
  limit of them.
\<close>

lemma orderly_pushes_bound_calls:
  assumes "orderly (asyncQueue k) es" "0 \<le> k"
  shows "int (length (in_flight (after (asyncQueue k) es))) \<le> k"
proof -
  let ?s = "after (asyncQueue k) es"
  have c: "consistent (asyncQueue k)" and "tracked (asyncQueue k)"
    by (simp_all add: consistent_def tracked_def asyncQueue_def in_flight_def bindings_def)
  moreover have "supplied (asyncQueue k)"
    by (simp add: supplied_def asyncQueue_def run_jobs_def)
  ultimately have t: "tracked ?s"
    using orderly_supplied [OF _ _ _ assms(1)] by simp
  have "distinct (in_flight ?s)"
    using orderly_consistent [OF c assms(1)] by (simp add: consistent_def)
  then have "length (in_flight ?s) = length (running ?s)"
    using t by (metis distinct_card tracked_def)
  moreover have "within_limit (asyncQueue k)"
    using assms(2) by (simp add: within_limit_def asyncQueue_def)
  then have "within_limit ?s" by (rule after_within_limit)
  ultimately show ?thesis by (simp add: within_limit_def asyncQueue_def)
qed

subsection \<open>A queue whose limit is not positive\<close>

lemma run_blocked: "concurrencyLimit s \<le> 0 \<Longrightarrow> run s = (None, s)"
  by (simp add: run_def)

lemma step_idle:
  assumes "concurrencyLimit s \<le> 0" "idle s"
  shows "idle (snd (step e s)) \<and> (\<forall>x \<in> set (fst (step e s)). \<exists>a p. x = Pushed a p)"
proof (cases e)
  case Tick
  show ?thesis
  proof (cases "microtasks s")
    case Nil
    then show ?thesis using Tick assms by simp
  next
    case (Cons j js)
    then have j: "j = RunJob" and js: "set js \<subseteq> {RunJob}"
      using assms(2) by (auto simp: idle_def)
    show ?thesis using Tick Cons j js assms
      by (simp add: run_blocked idle_def thrown_def)
  qed
qed (use assms in \<open>auto simp: idle_def push_def clear_def Let_def\<close>)

lemma exec_idle:
  assumes "concurrencyLimit s \<le> 0" "idle s"
  shows "idle (after s es) \<and> (\<forall>x \<in> set (trace s es). \<exists>a p. x = Pushed a p)"
proof (induction es rule: rev_induct)
  case Nil
  then show ?case using assms by simp
next
  case (snoc e es)
  have "concurrencyLimit (after s es) \<le> 0" using assms(1) by simp
  from step_idle [OF this, of e] snoc show ?case
    by (auto simp: after_snoc trace_snoc)
qed

text \<open>
  C10. \<^verbatim>\<open>queue\<close> takes a limit that is not positive as it is. On such a queue \<^verbatim>\<open>push\<close>
  still returns a promise and appends the action to the pending sequence, but no action
  is ever called, no promise is ever settled and \<open>running\<close> stays empty, whatever
  happens.
\<close>

theorem nonpositive_limit_starts_nothing:
  "k \<le> 0 \<Longrightarrow>
   concurrencyLimit (asyncQueue k) = k \<and>
   fst (step (Push b) (after (asyncQueue k) es)) =
     [Pushed b (allocated (after (asyncQueue k) es))] \<and>
   queue (snd (step (Push b) (after (asyncQueue k) es))) =
     queue (after (asyncQueue k) es) @ [b] \<and>
   Called a \<notin> set (trace (asyncQueue k) es) \<and>
   Settled p r \<notin> set (trace (asyncQueue k) es) \<and>
   running (after (asyncQueue k) es) = []"
proof -
  assume k: "k \<le> 0"
  have "idle (asyncQueue k)" "concurrencyLimit (asyncQueue k) \<le> 0"
    using k by (simp_all add: idle_def asyncQueue_def)
  from exec_idle [OF this(2) this(1), of es]
  have "idle (after (asyncQueue k) es)"
    and "\<forall>x \<in> set (trace (asyncQueue k) es). \<exists>a p. x = Pushed a p"
    by simp_all
  then show ?thesis
    by (auto simp: idle_def push_def Let_def asyncQueue_def)
qed

theorem nonpositive_limit_starts_nothing_witness:
  "(0::int) \<le> 0 \<and>
   trace (asyncQueue 0) [Push 4, Tick, Push 6, Tick, Tick] = [Pushed 4 0, Pushed 6 1] \<and>
   queue (after (asyncQueue 0) [Push 4, Tick, Push 6, Tick, Tick]) = [4, 6] \<and>
   Called 4 \<notin> set (trace (asyncQueue 0) [Push 4, Tick, Push 6, Tick, Tick]) \<and>
   Settled 0 (Fulfilled 1) \<notin> set (trace (asyncQueue 0) [Push 4, Tick, Push 6, Tick, Tick]) \<and>
   running (after (asyncQueue 0) [Push 4, Tick, Push 6, Tick, Tick]) = []"
  using nonpositive_limit_starts_nothing
          [of 0 7 "[Push 4, Tick, Push 6, Tick, Tick]" 4 0 "Fulfilled 1"]
  by (simp add: after_def trace_def asyncQueue_def push_def run_def cleanup_def clear_def
      set_add_def set_delete_def thrown_def Let_def)

subsection \<open>What \<^verbatim>\<open>clear\<close> does\<close>

text \<open>The pending sequence becomes empty and nothing else changes.\<close>

lemma clear_only_empties_queue: "step Clear s = ([], s\<lparr>queue := []\<rparr>)"
  by (simp add: clear_def)

text \<open>A call under way when \<^verbatim>\<open>clear\<close> is called still settles its promise.\<close>

lemma clear_keeps_calls_under_way:
  assumes "(a, p) \<in> set (unsettled s)"
  shows "Settled p r \<in> set (trace (clear s)
           (Completes a p r # replicate (Suc (length (microtasks s))) Tick))"
  using call_under_way_settles [of a p "clear s" r] assms
  by (simp add: clear_def)

text \<open>
  A pending action that \<^verbatim>\<open>clear\<close> removes is not called, unless it is pushed again,
  and the promise it is bound to is never settled, provided no call or reaction holds
  the callbacks of that promise when \<^verbatim>\<open>clear\<close> is called.
\<close>

lemma cleared_action_not_called:
  assumes "a \<notin> set (scheduled s)" "Push a \<notin> set es"
  shows "Called a \<notin> set (trace (clear s) es)"
proof -
  have "\<not> may_start a (clear s)"
    using assms(1) by (simp add: may_start_def clear_def scheduled_def)
  from not_called_unless_pushed [OF this assms(2)] show ?thesis by simp
qed

lemma cleared_promise_never_settled:
  assumes "a \<in> set (queue s)" "promises s a = Some p" "p < allocated s"
    and "Some p \<notin> job_promise ` set (microtasks s)" "p \<notin> snd ` set (unsettled s)"
  shows "Settled p r \<notin> set (trace (clear s) es)"
proof -
  have "\<not> live p (clear s)" "p < allocated (clear s)"
    using assms by (simp_all add: live_def clear_def)
  from not_live_never_settled [OF this] show ?thesis by simp
qed

text \<open>
  Three actions pushed and cleared before any has started, then a fourth pushed: the
  fourth is called, and it is the only one.
\<close>

lemma push_after_clear_starts:
  "1 \<le> k \<Longrightarrow>
   trace (asyncQueue k) [Push a, Push b, Push c, Clear, Push d, Tick, Tick, Tick, Tick, Tick] =
     [Pushed a 0, Pushed b 1, Pushed c 2, Pushed d 3, Called d]"
  by (simp add: after_def trace_def asyncQueue_def push_def run_def cleanup_def clear_def
      set_add_def set_delete_def thrown_def Let_def)

subsection \<open>The same action pushed twice\<close>

lemma ticks_without_jobs: "microtasks s = [] \<Longrightarrow> exec s (replicate n Tick) = ([], s)"
  by (induction n) simp_all

text \<open>
  C9, at a second push while the first call is under way. Queue with limit 1, the
  action 0 pushed, started and called, then pushed again before its result settles
  with 7. \<^verbatim>\<open>run\<close> had read the callbacks of the first promise when it started the
  action, so it is the first promise that is settled; \<^verbatim>\<open>cleanup\<close> then deletes the
  entry the second push wrote, the scheduler throws on the second occurrence, and the
  second promise is never settled, whatever happens afterwards.
\<close>

theorem second_push_while_running_settles_first_promise:
  "trace (asyncQueue 1)
     [Push 0, Tick, Tick, Push 0, Tick, Completes 0 0 (Fulfilled 7), Tick, Tick] =
   [Pushed 0 0, Called 0, Pushed 0 1, Settled 0 (Fulfilled 7), Thrown (MissingCallbacks 0)] \<and>
   Settled 1 r \<notin> set (trace (after (asyncQueue 1)
     [Push 0, Tick, Tick, Push 0, Tick, Completes 0 0 (Fulfilled 7), Tick, Tick]) es)"
proof -
  let ?s = "after (asyncQueue 1)
     [Push 0, Tick, Tick, Push 0, Tick, Completes 0 0 (Fulfilled 7), Tick, Tick]"
  have "\<not> live 1 ?s" "1 < allocated ?s"
    by (simp_all add: after_def trace_def asyncQueue_def push_def run_def cleanup_def clear_def
      set_add_def set_delete_def thrown_def Let_def live_def)
  from not_live_never_settled [OF this, of es r]
  have "Settled 1 r \<notin> set (trace ?s es)" by simp
  then show ?thesis
    by (simp add: after_def trace_def asyncQueue_def push_def run_def cleanup_def clear_def
      set_add_def set_delete_def thrown_def Let_def)
qed

text \<open>
  With a limit of 2 both occurrences are taken from the queue before either call has
  finished: the action is called twice, both calls settle the second promise, and
  nothing is thrown.
\<close>

lemma duplicate_push_limit_two:
  "trace (asyncQueue 2)
     [Push 0, Push 0, Tick, Tick, Tick, Tick,
      Completes 0 1 (Fulfilled 7), Completes 0 1 (Fulfilled 8), Tick, Tick, Tick, Tick] =
   [Pushed 0 0, Pushed 0 1, Called 0, Called 0,
    Settled 1 (Fulfilled 7), Settled 1 (Fulfilled 8)]"
  by (simp add: after_def trace_def asyncQueue_def push_def run_def cleanup_def clear_def
      set_add_def set_delete_def thrown_def Let_def)

text \<open>
  C1, at an action pushed twice. Queue with limit 2. First run: the action 0 pushed
  twice, then the action 1; \<open>running\<close> is a Set of actions, so the second start of 0
  does not make it larger and the scheduler starts 1 as well: three calls are under way
  at once while \<open>running\<close> holds two actions. Second run: the action 0 pushed twice
  and both occurrences called; when the first call has finished, \<^verbatim>\<open>cleanup\<close> deletes 0
  from \<open>running\<close> although the second call is still under way; the actions 1 and 2
  pushed next are both started: three different actions are under way at once, and
  nothing is thrown.
\<close>

theorem duplicate_push_exceeds_limit:
  "concurrencyLimit (asyncQueue 2) = 2 \<and>
   trace (asyncQueue 2) [Push 0, Push 0, Push 1, Tick, Tick, Tick, Tick, Tick, Tick] =
     [Pushed 0 0, Pushed 0 1, Pushed 1 2, Called 0, Called 0, Called 1] \<and>
   unsettled (after (asyncQueue 2) [Push 0, Push 0, Push 1, Tick, Tick, Tick, Tick, Tick, Tick]) =
     [(0, 1), (0, 1), (1, 2)] \<and>
   running (after (asyncQueue 2) [Push 0, Push 0, Push 1, Tick, Tick, Tick, Tick, Tick, Tick]) =
     [0, 1] \<and>
   trace (asyncQueue 2)
     [Push 0, Push 0, Tick, Tick, Tick, Tick, Completes 0 1 (Fulfilled 7), Tick, Tick,
      Push 1, Push 2, Tick, Tick, Tick, Tick] =
     [Pushed 0 0, Pushed 0 1, Called 0, Called 0, Settled 1 (Fulfilled 7),
      Pushed 1 2, Pushed 2 3, Called 1, Called 2] \<and>
   unsettled (after (asyncQueue 2)
     [Push 0, Push 0, Tick, Tick, Tick, Tick, Completes 0 1 (Fulfilled 7), Tick, Tick,
      Push 1, Push 2, Tick, Tick, Tick, Tick]) = [(0, 1), (1, 2), (2, 3)] \<and>
   running (after (asyncQueue 2)
     [Push 0, Push 0, Tick, Tick, Tick, Tick, Completes 0 1 (Fulfilled 7), Tick, Tick,
      Push 1, Push 2, Tick, Tick, Tick, Tick]) = [1, 2]"
  by (simp add: after_def trace_def asyncQueue_def push_def run_def cleanup_def clear_def
      set_add_def set_delete_def thrown_def Let_def)

text \<open>
  One run in which the two pushes come before the first start: on a new queue with
  limit 1, an action \<open>f\<close> pushed twice, then the ticks and the completion in the order
  of the engine. The second push overwrites the entry of \<open>f\<close> in \<^verbatim>\<open>promises\<close>; \<open>f\<close>
  is called once; its outcome settles the promise of the second push; \<^verbatim>\<open>cleanup\<close>
  then takes the second occurrence from the queue and throws the missing-callbacks
  error; and the promise of the first push is never settled afterwards.
\<close>

lemma duplicate_push_before_start:
  "promises (after (asyncQueue 1) [Push f]) f = Some 0 \<and>
   promises (after (asyncQueue 1) [Push f, Push f]) f = Some 1 \<and>
   trace (asyncQueue 1)
     [Push f, Push f, Tick, Tick, Tick, Completes f 1 r, Tick, Tick] =
   [Pushed f 0, Pushed f 1, Called f, Settled 1 r, Thrown (MissingCallbacks f)] \<and>
   Settled 0 r' \<notin> set (trace (after (asyncQueue 1)
     [Push f, Push f, Tick, Tick, Tick, Completes f 1 r, Tick, Tick]) es)"
proof -
  let ?s = "after (asyncQueue 1) [Push f, Push f, Tick, Tick, Tick, Completes f 1 r, Tick, Tick]"
  have "\<not> live 0 ?s" "0 < allocated ?s"
    by (simp_all add: after_def trace_def asyncQueue_def push_def run_def cleanup_def clear_def
      set_add_def set_delete_def thrown_def Let_def live_def)
  from not_live_never_settled [OF this, of es r']
  have "Settled 0 r' \<notin> set (trace ?s es)" by simp
  then show ?thesis by (simp add: after_def trace_def asyncQueue_def push_def run_def cleanup_def clear_def
      set_add_def set_delete_def thrown_def Let_def)
qed

text \<open>
  C2, at an action pushed twice. Queue with limit 1, the action 0 pushed twice and then
  the action 1; action 0 is called once and succeeds with 7. Its outcome settles the
  promise of the second push; the scheduler then throws on the second occurrence and
  stops. The promise of the first push is never settled, and action 1, which was pushed
  and not cleared, is left in the queue with no job to start it: no tick will call it.
\<close>

theorem duplicate_push_loses_first_promise:
  "trace (asyncQueue 1)
     [Push 0, Push 0, Push 1, Tick, Tick, Tick, Tick, Completes 0 1 (Fulfilled 7), Tick, Tick] =
   [Pushed 0 0, Pushed 0 1, Pushed 1 2, Called 0, Settled 1 (Fulfilled 7),
    Thrown (MissingCallbacks 0)] \<and>
   queue (after (asyncQueue 1)
     [Push 0, Push 0, Push 1, Tick, Tick, Tick, Tick, Completes 0 1 (Fulfilled 7), Tick, Tick]) = [1] \<and>
   running (after (asyncQueue 1)
     [Push 0, Push 0, Push 1, Tick, Tick, Tick, Tick, Completes 0 1 (Fulfilled 7), Tick, Tick]) = [] \<and>
   trace (after (asyncQueue 1)
     [Push 0, Push 0, Push 1, Tick, Tick, Tick, Tick, Completes 0 1 (Fulfilled 7), Tick, Tick])
     (replicate n Tick) = [] \<and>
   Settled 0 r \<notin> set (trace (after (asyncQueue 1)
     [Push 0, Push 0, Push 1, Tick, Tick, Tick, Tick, Completes 0 1 (Fulfilled 7), Tick, Tick]) es)"
proof -
  let ?s = "after (asyncQueue 1)
     [Push 0, Push 0, Push 1, Tick, Tick, Tick, Tick, Completes 0 1 (Fulfilled 7), Tick, Tick]"
  have "\<not> live 0 ?s" "0 < allocated ?s"
    by (simp_all add: after_def trace_def asyncQueue_def push_def run_def cleanup_def clear_def
      set_add_def set_delete_def thrown_def Let_def live_def)
  from not_live_never_settled [OF this, of es r]
  have a: "Settled 0 r \<notin> set (trace ?s es)" by simp
  have "microtasks ?s = []" by (simp add: after_def trace_def asyncQueue_def push_def run_def cleanup_def clear_def
      set_add_def set_delete_def thrown_def Let_def)
  then have b: "trace ?s (replicate n Tick) = []"
    by (simp add: trace_def ticks_without_jobs)
  from a b show ?thesis by (simp add: after_def trace_def asyncQueue_def push_def run_def cleanup_def clear_def
      set_add_def set_delete_def thrown_def Let_def)
qed

text \<open>
  The same happens when an action is pushed again between the settlement of its promise
  and its \<^verbatim>\<open>cleanup\<close>, as in \<^verbatim>\<open>await q.push(f); q.push(f)\<close>: the reaction of the
  caller to the first promise runs before \<^verbatim>\<open>cleanup\<close>, which then deletes the entry
  the second push wrote; the scheduler throws and the second promise is never settled.
\<close>

lemma push_again_before_cleanup:
  "trace (asyncQueue 1)
     [Push 0, Tick, Tick, Completes 0 0 (Fulfilled 7), Tick, Push 0, Tick, Tick] =
   [Pushed 0 0, Called 0, Settled 0 (Fulfilled 7), Pushed 0 1, Thrown (MissingCallbacks 0)] \<and>
   Settled 1 r \<notin> set (trace (after (asyncQueue 1)
     [Push 0, Tick, Tick, Completes 0 0 (Fulfilled 7), Tick, Push 0, Tick, Tick]) es)"
proof -
  let ?s = "after (asyncQueue 1)
     [Push 0, Tick, Tick, Completes 0 0 (Fulfilled 7), Tick, Push 0, Tick, Tick]"
  have "\<not> live 1 ?s" "1 < allocated ?s"
    by (simp_all add: after_def trace_def asyncQueue_def push_def run_def cleanup_def clear_def
      set_add_def set_delete_def thrown_def Let_def live_def)
  from not_live_never_settled [OF this, of es r]
  have "Settled 1 r \<notin> set (trace ?s es)" by simp
  then show ?thesis
    by (simp add: after_def trace_def asyncQueue_def push_def run_def cleanup_def clear_def
      set_add_def set_delete_def thrown_def Let_def)
qed

text \<open>
  C7, at an action pushed twice. Queue with limit 1, the action 0 pushed twice; the
  scheduler starts the first occurrence, reading the callbacks of the second promise;
  \<^verbatim>\<open>clear\<close> then removes the second occurrence, which is still pending. When the call
  fails with 9, the promise of the second push, whose occurrence was removed and never
  started, is rejected with 9.
\<close>

theorem clear_after_duplicate_push_settles_removed_promise:
  "queue (after (asyncQueue 1) [Push 0, Push 0, Tick]) = [0] \<and>
   queue (after (asyncQueue 1) [Push 0, Push 0, Tick, Clear]) = [] \<and>
   trace (asyncQueue 1)
     [Push 0, Push 0, Tick, Clear, Tick, Tick, Completes 0 1 (Rejected 9), Tick, Tick] =
   [Pushed 0 0, Pushed 0 1, Called 0, Settled 1 (Rejected 9)]"
  by (simp add: after_def trace_def asyncQueue_def push_def run_def cleanup_def clear_def
      set_add_def set_delete_def thrown_def Let_def)

section \<open>Properties of the timeout wrapper\<close>

subsection \<open>The race between the timer and the result\<close>

text \<open>Once the result has settled and the timer is no longer armed, nothing changes.\<close>

lemma tstep_finished: "\<not> awaiting s \<Longrightarrow> kill s \<noteq> Armed \<Longrightarrow> tstep w e s = s"
  by (cases e) simp_all

lemma tafter_finished: "\<not> awaiting s \<Longrightarrow> kill s \<noteq> Armed \<Longrightarrow> tafter w s es = s"
  by (induction es) (simp_all add: tstep_finished)

text \<open>Once the timer has fired, no call of \<^verbatim>\<open>resolve\<close> or \<^verbatim>\<open>reject\<close> is added.\<close>

lemma tstep_overran:
  "overran s \<Longrightarrow> kill s = Fired \<Longrightarrow>
   overran (tstep w e s) \<and> kill (tstep w e s) = Fired \<and> calls (tstep w e s) = calls s"
  by (cases e) (simp_all add: on_result_def clearTimeout_def)

lemma tafter_overran:
  "overran s \<Longrightarrow> kill s = Fired \<Longrightarrow>
   overran (tafter w s es) \<and> kill (tafter w s es) = Fired \<and> calls (tafter w s es) = calls s"
proof (induction es arbitrary: s)
  case Nil
  then show ?case by simp
next
  case (Cons e es)
  from tstep_overran [OF Cons.prems, of w e] Cons.IH [of "tstep w e s"] show ?case
    by simp
qed

lemma deadline_first:
  "calls (tafter w (timeoutified w Promised) (Deadline # es)) =
     (if rejectOnTimeout w
      then [Reject (TimeoutExpired (TimeoutExpiredError (func_name w) (ms w)))] else [])"
proof -
  let ?s = "tstep w Deadline (timeoutified w Promised) :: ('a, 'b) call"
  have "overran ?s" "kill ?s = Fired"
    by (simp_all add: timeoutified_def on_deadline_def Let_def)
  from tafter_overran [OF this, of w es] show ?thesis
    by (simp add: timeoutified_def on_deadline_def Let_def)
qed

text \<open>
  C4. When the promise of \<^verbatim>\<open>func\<close> settles before the time is up, the timer is
  cleared and the wrapped call is settled once and with that outcome, whatever happens
  afterwards: \<^verbatim>\<open>resolve\<close> is called with the value \<^verbatim>\<open>func\<close> succeeded with, or
  \<^verbatim>\<open>reject\<close> with what it failed with, and nothing else is called. When the time is up
  first, a result that settles later is dropped: the calls are those of the timer
  callback, one rejection with the timeout error when \<^verbatim>\<open>rejectOnTimeout\<close> is true and
  none when it is false.
\<close>

theorem result_before_deadline_is_forwarded_once:
  "kill (tafter w (timeoutified w Promised) (Result (Returned v) # es)) = Cleared \<and>
   calls (tafter w (timeoutified w Promised) (Result (Returned v) # es)) = [Resolve v] \<and>
   wrapped_outcome (tafter w (timeoutified w Promised) (Result (Returned v) # es)) =
     Some (Resolve v) \<and>
   kill (tafter w (timeoutified w Promised) (Result (Failed x) # es)) = Cleared \<and>
   calls (tafter w (timeoutified w Promised) (Result (Failed x) # es)) = [Reject x] \<and>
   wrapped_outcome (tafter w (timeoutified w Promised) (Result (Failed x) # es)) =
     Some (Reject x) \<and>
   calls (tafter w (timeoutified w Promised) (Deadline # Result r # es)) =
     calls (tstep w Deadline (timeoutified w Promised)) \<and>
   length (calls (tafter w (timeoutified w Promised) (Deadline # Result r # es))) \<le> 1 \<and>
   (rejectOnTimeout w \<longrightarrow>
      calls (tafter w (timeoutified w Promised) (Deadline # Result r # es)) =
        [Reject (TimeoutExpired (TimeoutExpiredError (func_name w) (ms w)))]) \<and>
   (\<not> rejectOnTimeout w \<longrightarrow>
      calls (tafter w (timeoutified w Promised) (Deadline # Result r # es)) = [])"
proof -
  let ?s0 = "timeoutified w Promised :: ('a, 'b) call"
  have first: "tafter w ?s0 (Result q # es) = tstep w (Result q) ?s0" for q
  proof -
    have "\<not> awaiting (tstep w (Result q) ?s0)" "kill (tstep w (Result q) ?s0) \<noteq> Armed"
      by (simp_all add: timeoutified_def on_result_def clearTimeout_def)
    then have "tafter w (tstep w (Result q) ?s0) es = tstep w (Result q) ?s0"
      by (rule tafter_finished)
    then show ?thesis by simp
  qed
  have a: "kill (tstep w (Result (Returned v)) ?s0) = Cleared"
    "calls (tstep w (Result (Returned v)) ?s0) = [Resolve v]"
    by (simp_all add: timeoutified_def on_result_def clearTimeout_def forwarded_def)
  have b: "kill (tstep w (Result (Failed x)) ?s0) = Cleared"
    "calls (tstep w (Result (Failed x)) ?s0) = [Reject x]"
    by (simp_all add: timeoutified_def on_result_def clearTimeout_def forwarded_def)
  have c: "calls (tstep w Deadline ?s0) =
      (if rejectOnTimeout w
       then [Reject (TimeoutExpired (TimeoutExpiredError (func_name w) (ms w)))] else [])"
    by (simp add: timeoutified_def on_deadline_def Let_def)
  show ?thesis
    unfolding first deadline_first c using a b by (simp add: wrapped_outcome_def)
qed

theorem result_before_deadline_is_forwarded_once_witness:
  "calls (tafter (timeout ''fastFn'' (Some (Abs_safe_integer 50)) None)
            (timeoutified (timeout ''fastFn'' (Some (Abs_safe_integer 50)) None) Promised)
            [Result (Returned (42::nat)), Deadline]) = [Resolve 42 :: (nat, nat) settlement] \<and>
   calls (tafter (timeout ''fastFn'' (Some (Abs_safe_integer 50)) None)
            (timeoutified (timeout ''fastFn'' (Some (Abs_safe_integer 50)) None) Promised)
            [Result (Failed (Failure (7::nat))), Deadline]) =
     [Reject (Failure 7) :: (nat, nat) settlement] \<and>
   rejectOnTimeout (timeout ''slowFn'' (Some (Abs_safe_integer 50)) None) \<and>
   calls (tafter (timeout ''slowFn'' (Some (Abs_safe_integer 50)) None)
            (timeoutified (timeout ''slowFn'' (Some (Abs_safe_integer 50)) None) Promised)
            [Deadline, Result (Returned (42::nat))]) =
     [Reject (TimeoutExpired (TimeoutExpiredError ''slowFn'' (Abs_safe_integer 50))) ::
      (nat, nat) settlement] \<and>
   \<not> rejectOnTimeout (timeout ''slowFn'' (Some (Abs_safe_integer 50)) (Some False)) \<and>
   calls (tafter (timeout ''slowFn'' (Some (Abs_safe_integer 50)) (Some False))
            (timeoutified (timeout ''slowFn'' (Some (Abs_safe_integer 50)) (Some False)) Promised)
            [Deadline, Result (Returned (42::nat))]) = ([] :: (nat, nat) settlement list)"
  using result_before_deadline_is_forwarded_once
          [of "timeout ''fastFn'' (Some (Abs_safe_integer 50)) None" "42::nat" "[Deadline]"
              "Failure (7::nat)" "Returned 42"]
        result_before_deadline_is_forwarded_once
          [of "timeout ''slowFn'' (Some (Abs_safe_integer 50)) None" "42::nat" "[]"
              "Failure (7::nat)" "Returned 42"]
        result_before_deadline_is_forwarded_once
          [of "timeout ''slowFn'' (Some (Abs_safe_integer 50)) (Some False)" "42::nat" "[]"
              "Failure (7::nat)" "Returned 42"]
  by (simp add: timeout_def timeoutified_def on_deadline_def on_result_def clearTimeout_def
      forwarded_def)

subsection \<open>The timeout error\<close>

text \<open>The text of a time is the decimal numeral of that time.\<close>

lemma digit_value_digit: "d < 10 \<Longrightarrow> digit_value (digit d) = d"
proof -
  assume "d < 10"
  then consider "d = 0" | "d = 1" | "d = 2" | "d = 3" | "d = 4" | "d = 5" | "d = 6"
    | "d = 7" | "d = 8" | "d = 9"
    by atomize_elim arith
  then show ?thesis
    by cases (simp_all add: digit_def digit_value_def)
qed

lemma digit_not_minus: "d < 10 \<Longrightarrow> digit d \<noteq> CHR ''-''"
proof -
  assume "d < 10"
  then consider "d = 0" | "d = 1" | "d = 2" | "d = 3" | "d = 4" | "d = 5" | "d = 6"
    | "d = 7" | "d = 8" | "d = 9"
    by atomize_elim arith
  then show ?thesis
    by cases (simp_all add: digit_def)
qed

lemma decimal_value_snoc: "decimal_value (cs @ [c]) = 10 * decimal_value cs + digit_value c"
  by (simp add: decimal_value_def)

lemma decimal_value_decimal: "decimal_value (decimal n) = n"
proof (induction n rule: decimal.induct)
  case (1 n)
  show ?case
  proof (cases "n < 10")
    case True
    then show ?thesis
      by (simp add: decimal.simps [of n] decimal_value_def digit_value_digit)
  next
    case False
    then show ?thesis using 1
      by (simp add: decimal.simps [of n] decimal_value_snoc digit_value_digit)
  qed
qed

lemma decimal_head: "\<exists>c cs. decimal n = c # cs \<and> c \<noteq> CHR ''-''"
proof (induction n rule: decimal.induct)
  case (1 n)
  show ?case
  proof (cases "n < 10")
    case True
    then show ?thesis
      by (simp add: decimal.simps [of n] digit_not_minus)
  next
    case False
    with 1 obtain c cs where "decimal (n div 10) = c # cs" "c \<noteq> CHR ''-''"
      by blast
    then show ?thesis using False
      by (simp add: decimal.simps [of n])
  qed
qed

lemma number_value_number_string: "number_value (number_string t) = Rep_safe_integer t"
proof (cases "Rep_safe_integer t < 0")
  case True
  then show ?thesis
    by (simp add: number_string_def number_value_def decimal_value_decimal)
next
  case False
  obtain c cs where d: "decimal (nat (Rep_safe_integer t)) = c # cs" "c \<noteq> CHR ''-''"
    using decimal_head by blast
  have "decimal_value (c # cs) = nat (Rep_safe_integer t)"
    using decimal_value_decimal [of "nat (Rep_safe_integer t)"] d by simp
  then show ?thesis using False d
    by (simp add: number_string_def number_value_def)
qed

text \<open>The wrapper raises its error in the timer callback and nowhere else.\<close>

lemma tafter_snoc: "tafter w s (es @ [e]) = tstep w e (tafter w s es)"
  by (induction es arbitrary: s) simp_all

lemma tstep_raised_by_timer_only:
  assumes "raised_by_timer_only w a es s"
  shows "raised_by_timer_only w a (es @ [e]) (tstep w e s)"
proof (cases e)
  case Deadline
  then show ?thesis using assms
    by (auto simp: raised_by_timer_only_def on_deadline_def Let_def)
next
  case (Result r)
  show ?thesis
  proof (cases r)
    case (Returned v)
    then show ?thesis using Result assms
      by (auto simp: raised_by_timer_only_def on_result_def Let_def clearTimeout_def
          forwarded_def)
  next
    case (Failed x)
    then show ?thesis using Result assms
      by (auto simp: raised_by_timer_only_def on_result_def Let_def clearTimeout_def
          forwarded_def)
  qed
qed

lemma tafter_raised_by_timer_only:
  "raised_by_timer_only w a [] s \<Longrightarrow> raised_by_timer_only w a es (tafter w s es)"
proof (induction es rule: rev_induct)
  case Nil
  then show ?case by simp
next
  case (snoc e es)
  from tstep_raised_by_timer_only [OF snoc.IH [OF snoc.prems], of e] show ?case
    by (simp add: tafter_snoc)
qed

lemma timeoutified_raised_by_timer_only: "raised_by_timer_only w a [] (timeoutified w a)"
  by (cases a) (simp_all add: raised_by_timer_only_def timeoutified_def)

text \<open>
  C5 as stated fails on the properties of the error: in the object the wrapped call is
  rejected with, nothing is stored under \<^verbatim>\<open>functionName\<close> or \<^verbatim>\<open>timeoutMs\<close>, so both
  read as \<^verbatim>\<open>undefined\<close>. Here at a function named \<^verbatim>\<open>slowFn\<close> wrapped with 50 ms.
\<close>

theorem timeout_error_has_no_functionName:
  "calls (tafter (timeout ''slowFn'' (Some (Abs_safe_integer 50)) None)
            (timeoutified (timeout ''slowFn'' (Some (Abs_safe_integer 50)) None) Promised)
            [Deadline]) =
     [Reject (TimeoutExpired (TimeoutExpiredError ''slowFn'' (Abs_safe_integer 50))) ::
      (nat, nat) settlement] \<and>
   stored_property (TimeoutExpiredError ''slowFn'' (Abs_safe_integer 50)) ''functionName'' = None \<and>
   stored_property (TimeoutExpiredError ''slowFn'' (Abs_safe_integer 50)) ''timeoutMs'' = None"
  by (simp add: timeout_def timeoutified_def on_deadline_def stored_property_def)

text \<open>
  C5, amended. When the time is up before the promise of \<^verbatim>\<open>func\<close> has settled and
  \<^verbatim>\<open>rejectOnTimeout\<close> is true, the wrapped call is rejected, once, with a
  \<^verbatim>\<open>TimeoutExpiredError\<close> whose properties are \<^verbatim>\<open>name\<close>, the name of the class, and
  \<^verbatim>\<open>message\<close>, a text that holds the name of \<^verbatim>\<open>func\<close>, or \<^verbatim>\<open><anonymous>\<close> when it has
  none, and the configured time as a decimal numeral; nothing is stored in the error
  under \<^verbatim>\<open>functionName\<close> or \<^verbatim>\<open>timeoutMs\<close>. And in every call of a wrapped function, a
  rejection that is not the failure of \<^verbatim>\<open>func\<close> itself is this error, made by the timer
  callback with \<^verbatim>\<open>rejectOnTimeout\<close> true.
\<close>

theorem timeout_rejects_with_TimeoutExpiredError:
  "(rejectOnTimeout w \<longrightarrow>
      calls (tafter w (timeoutified w Promised) (Deadline # es)) =
        [Reject (TimeoutExpired (TimeoutExpiredError (func_name w) (ms w)))] \<and>
      wrapped_outcome (tafter w (timeoutified w Promised) (Deadline # es)) =
        Some (Reject (TimeoutExpired (TimeoutExpiredError (func_name w) (ms w))))) \<and>
   stored_property (TimeoutExpiredError (func_name w) (ms w)) ''name'' = Some ''TimeoutExpiredError'' \<and>
   stored_property (TimeoutExpiredError (func_name w) (ms w)) ''message'' =
     Some (''Timeout-wrapped function '' @
           (if func_name w = [] then ''<anonymous>'' else func_name w) @
           '' took longer than '' @ number_string (ms w) @ ''ms to resolve'') \<and>
   number_value (number_string (ms w)) = Rep_safe_integer (ms w) \<and>
   stored_property (TimeoutExpiredError (func_name w) (ms w)) ''functionName'' = None \<and>
   stored_property (TimeoutExpiredError (func_name w) (ms w)) ''timeoutMs'' = None \<and>
   (Reject x \<in> set (calls (tafter w (timeoutified w a) es')) \<longrightarrow>
    Result (Failed x) \<notin> set es' \<longrightarrow> a \<noteq> Threw x \<longrightarrow>
      rejectOnTimeout w \<and>
      x = TimeoutExpired (TimeoutExpiredError (func_name w) (ms w)) \<and>
      kill (tafter w (timeoutified w a) es') = Fired \<and>
      overran (tafter w (timeoutified w a) es'))"
proof -
  let ?e = "TimeoutExpiredError (func_name w) (ms w)"
  have c: "calls (tafter w (timeoutified w Promised) (Deadline # es)) =
             [Reject (TimeoutExpired ?e)]"
    if "rejectOnTimeout w"
    using that by (simp only: deadline_first if_True)
  have o: "wrapped_outcome (tafter w (timeoutified w Promised) (Deadline # es)) =
          Some (Reject (TimeoutExpired ?e))"
    if "rejectOnTimeout w"
    unfolding wrapped_outcome_def c [OF that] by simp
  have n: "stored_property ?e ''name'' = Some ''TimeoutExpiredError''"
    by (simp add: stored_property_def TimeoutExpiredError_def)
  have m: "stored_property ?e ''message'' =
     Some (''Timeout-wrapped function '' @
           (if func_name w = [] then ''<anonymous>'' else func_name w) @
           '' took longer than '' @ number_string (ms w) @ ''ms to resolve'')"
    by (simp add: stored_property_def TimeoutExpiredError_def)
  have u: "stored_property ?e ''functionName'' = None" "stored_property ?e ''timeoutMs'' = None"
    by (simp_all add: stored_property_def)
  have "raised_by_timer_only w a es' (tafter w (timeoutified w a) es')"
    by (intro tafter_raised_by_timer_only timeoutified_raised_by_timer_only)
  then have p: "Reject x \<in> set (calls (tafter w (timeoutified w a) es')) \<longrightarrow>
    Result (Failed x) \<notin> set es' \<longrightarrow> a \<noteq> Threw x \<longrightarrow>
      rejectOnTimeout w \<and> x = TimeoutExpired ?e \<and>
      kill (tafter w (timeoutified w a) es') = Fired \<and>
      overran (tafter w (timeoutified w a) es')"
    unfolding raised_by_timer_only_def by blast
  from c o n m u p number_value_number_string [of "ms w"] show ?thesis
    by blast
qed

theorem timeout_rejects_with_TimeoutExpiredError_witness:
  "rejectOnTimeout (timeout ''slowFn'' (Some (Abs_safe_integer 50)) None) \<and>
   calls (tafter (timeout ''slowFn'' (Some (Abs_safe_integer 50)) None)
            (timeoutified (timeout ''slowFn'' (Some (Abs_safe_integer 50)) None) Promised)
            [Deadline, Result (Returned (1::nat))]) =
     [Reject (TimeoutExpired
        \<lparr>name = ''TimeoutExpiredError'',
         message = ''Timeout-wrapped function slowFn took longer than 50ms to resolve''\<rparr>) ::
      (nat, nat) settlement] \<and>
   Reject (TimeoutExpired (TimeoutExpiredError ''slowFn'' (Abs_safe_integer 50))) \<in>
     set (calls (tafter (timeout ''slowFn'' (Some (Abs_safe_integer 50)) None)
            (timeoutified (timeout ''slowFn'' (Some (Abs_safe_integer 50)) None) Promised)
            [Deadline, Result (Returned (1::nat))]) :: (nat, nat) settlement list) \<and>
   Result (Failed (TimeoutExpired (TimeoutExpiredError ''slowFn'' (Abs_safe_integer 50)))) \<notin>
     set [Deadline, Result (Returned (1::nat)) :: (nat, nat) tevent] \<and>
   (Promised :: nat applied) \<noteq>
     Threw (TimeoutExpired (TimeoutExpiredError ''slowFn'' (Abs_safe_integer 50))) \<and>
   kill (tafter (timeout ''slowFn'' (Some (Abs_safe_integer 50)) None)
            (timeoutified (timeout ''slowFn'' (Some (Abs_safe_integer 50)) None) Promised ::
               (nat, nat) call)
            [Deadline, Result (Returned (1::nat))]) = Fired \<and>
   stored_property (TimeoutExpiredError [] (Abs_safe_integer 5000)) ''message'' =
     Some ''Timeout-wrapped function <anonymous> took longer than 5000ms to resolve'' \<and>
   number_value ''50'' = 50"
  using timeout_rejects_with_TimeoutExpiredError
          [of "timeout ''slowFn'' (Some (Abs_safe_integer 50)) None"
              "[Result (Returned (1::nat))]"
              "TimeoutExpired (TimeoutExpiredError ''slowFn'' (Abs_safe_integer 50)) :: nat failure"
              "Promised :: nat applied"
              "[Deadline, Result (Returned (1::nat))]"]
        timeout_rejects_with_TimeoutExpiredError
          [of "timeout [] None None" "[] :: (nat, nat) tevent list"
              "Failure (0::nat)" "Promised :: nat applied" "[]"]
  by (simp add: timeout_def timeoutified_def on_deadline_def on_result_def clearTimeout_def
      TimeoutExpiredError_def number_string_def Abs_safe_integer_inverse stored_property_def
      decimal.simps [of 5000] decimal.simps [of 500] decimal.simps [of 50] decimal.simps [of 5]
      digit_def number_value_def decimal_value_def digit_value_def)

text \<open>
  C6. With \<^verbatim>\<open>rejectOnTimeout\<close> false, once the time is up before the promise of
  \<^verbatim>\<open>func\<close> has settled, neither \<^verbatim>\<open>resolve\<close> nor \<^verbatim>\<open>reject\<close> of the wrapped call is
  ever called, whatever happens afterwards: its promise stays pending.
\<close>

theorem no_reject_on_timeout_stays_pending:
  "\<not> rejectOnTimeout w \<Longrightarrow>
   calls (tafter w (timeoutified w Promised) (Deadline # es)) = [] \<and>
   wrapped_outcome (tafter w (timeoutified w Promised) (Deadline # es)) = None"
  by (simp only: deadline_first wrapped_outcome_def) simp

theorem no_reject_on_timeout_stays_pending_witness:
  "\<not> rejectOnTimeout (timeout ''slowFn'' (Some (Abs_safe_integer 50)) (Some False)) \<and>
   calls (tafter (timeout ''slowFn'' (Some (Abs_safe_integer 50)) (Some False))
            (timeoutified (timeout ''slowFn'' (Some (Abs_safe_integer 50)) (Some False)) Promised)
            [Deadline, Result (Returned (1::nat)), Deadline]) = ([] :: (nat, nat) settlement list) \<and>
   overran (tafter (timeout ''slowFn'' (Some (Abs_safe_integer 50)) (Some False))
            (timeoutified (timeout ''slowFn'' (Some (Abs_safe_integer 50)) (Some False)) Promised :: (nat, nat) call)
            [Deadline, Result (Returned (1::nat)), Deadline])"
  using no_reject_on_timeout_stays_pending
          [of "timeout ''slowFn'' (Some (Abs_safe_integer 50)) (Some False)"
              "[Result (Returned (1::nat)), Deadline]"]
  by (simp add: timeout_def timeoutified_def on_deadline_def on_result_def clearTimeout_def)

subsection \<open>The timer when \<^verbatim>\<open>func\<close> throws\<close>

lemma result_clears_timer:
  "awaiting s \<Longrightarrow> kill (tstep w (Result r) s) \<noteq> Armed"
  by (cases "kill s") (simp_all add: on_result_def Let_def clearTimeout_def)

lemma tstep_not_awaiting:
  "\<not> awaiting s \<Longrightarrow> kill s \<noteq> Cleared \<Longrightarrow> calls s \<noteq> [] \<Longrightarrow>
   \<not> awaiting (tstep w e s) \<and> kill (tstep w e s) \<noteq> Cleared \<and> calls (tstep w e s) \<noteq> [] \<and>
   wrapped_outcome (tstep w e s) = wrapped_outcome s"
  by (cases e) (auto simp: on_deadline_def Let_def wrapped_outcome_def split: list.splits)

lemma tafter_not_awaiting:
  "\<not> awaiting s \<Longrightarrow> kill s \<noteq> Cleared \<Longrightarrow> calls s \<noteq> [] \<Longrightarrow>
   \<not> awaiting (tafter w s es) \<and> kill (tafter w s es) \<noteq> Cleared \<and>
   wrapped_outcome (tafter w s es) = wrapped_outcome s"
proof (induction es arbitrary: s)
  case Nil
  then show ?case by simp
next
  case (Cons e es)
  from tstep_not_awaiting [OF Cons.prems, of w e] Cons.IH [of "tstep w e s"] show ?case
    by simp
qed

text \<open>
  C8, at a function that throws when it is applied: the wrapped call is rejected with
  what was thrown and the timer is left armed; nothing ever clears it, it fires when
  the time is up.
\<close>

theorem throwing_func_leaves_timer_armed:
  fixes es :: "('v, 'e) tevent list" and e :: "'e failure"
  shows
  "wrapped_outcome (timeoutified w (Threw e) :: ('v, 'e) call) = Some (Reject e) \<and>
   kill (timeoutified w (Threw e) :: ('v, 'e) call) = Armed \<and>
   kill (tafter w (timeoutified w (Threw e)) es) \<noteq> Cleared \<and>
   kill (tafter w (timeoutified w (Threw e)) (Deadline # es)) = Fired \<and>
   wrapped_outcome (tafter w (timeoutified w (Threw e)) es) = Some (Reject e)"
proof -
  let ?s = "timeoutified w (Threw e) :: ('v, 'e) call"
  have s: "\<not> awaiting ?s" "kill ?s = Armed" "wrapped_outcome ?s = Some (Reject e)"
    by (simp_all add: timeoutified_def wrapped_outcome_def)
  then have n: "kill ?s \<noteq> Cleared" by simp
  have c: "calls ?s \<noteq> []" by (simp add: timeoutified_def)
  let ?t = "tstep w Deadline ?s"
  have t: "\<not> awaiting ?t" "kill ?t \<noteq> Armed" "kill ?t = Fired"
    by (simp_all add: timeoutified_def on_deadline_def Let_def)
  from tafter_finished [OF t(1) t(2), of w es] t(3)
  have "kill (tafter w ?s (Deadline # es)) = Fired" by simp
  with s tafter_not_awaiting [OF s(1) n c, of w es] show ?thesis by simp
qed

end
